theory Spec2Isabelle
  imports Main
begin

section \<open>The IR graph consumed by the graph reducer\<close>

text \<open>
  The reducer of \<^verbatim>\<open>src/compiler/graph-reducer.cc\<close> works on the nodes, edges and
  operators declared in \<^verbatim>\<open>node.h\<close>, \<^verbatim>\<open>graph.h\<close>, \<^verbatim>\<open>operator.h\<close>,
  \<^verbatim>\<open>node-properties.h\<close> and \<^verbatim>\<open>verifier.h\<close>. A \<^verbatim>\<open>Node*\<close> is identified with
  the node's identifier, a natural number; the null pointer is \<open>None\<close> where the code
  admits it.
\<close>

datatype error = VerifierFailure | DCheckFailure | NullPointer

datatype IrOpcode = kIfSuccess | kIfException | kReplacementPlaceholder | kOther nat

record Operator =
  opcode :: IrOpcode
  ValueInputCount :: nat
  EffectInputCount :: nat
  ControlInputCount :: nat
  ValueOutputCount :: nat
  EffectOutputCount :: nat
  ControlOutputCount :: nat

record Node =
  op :: Operator
  inputs :: "nat list"
  killed :: bool

record Graph =
  nodes :: "nat \<Rightarrow> Node"
  NodeCount :: nat
  graph_start :: nat
  graph_end :: nat

type_synonym Edge = "nat \<times> nat"

text \<open>
  Modelled from the spec: the node and edge operations of \<^verbatim>\<open>node.h\<close> (section 6 of
  the specification: ordered input list by position, reverse user list per node, append
  input, truncate input count, replace operator, redirect an edge's target, kill a
  node). An edge is the pair of its owner and its input position. The reverse user list
  of a node is computed from the inputs of the nodes created so far, owners in
  ascending identifier order.
\<close>

definition node_opcode :: "Graph \<Rightarrow> nat \<Rightarrow> IrOpcode" where
  "node_opcode g n = opcode (op (nodes g n))"

definition InputCount :: "Graph \<Rightarrow> nat \<Rightarrow> nat" where
  "InputCount g n = length (inputs (nodes g n))"

definition InputAt :: "Graph \<Rightarrow> nat \<Rightarrow> nat \<Rightarrow> error + nat" where
  "InputAt g n i =
     (if i < InputCount g n then Inr (inputs (nodes g n) ! i) else Inl DCheckFailure)"

definition edges_from :: "Graph \<Rightarrow> nat \<Rightarrow> nat \<Rightarrow> Edge list" where
  "edges_from g n u =
     map (\<lambda>i. (u, i)) (filter (\<lambda>i. inputs (nodes g u) ! i = n) [0..<InputCount g u])"

definition use_edges :: "Graph \<Rightarrow> nat \<Rightarrow> Edge list" where
  "use_edges g n = concat (map (edges_from g n) [0..<NodeCount g])"

definition uses :: "Graph \<Rightarrow> nat \<Rightarrow> nat list" where
  "uses g n = map fst (use_edges g n)"

definition IsDead :: "Graph \<Rightarrow> nat \<Rightarrow> bool" where
  "IsDead g n = killed (nodes g n)"

definition set_inputs :: "Graph \<Rightarrow> nat \<Rightarrow> nat list \<Rightarrow> Graph" where
  "set_inputs g n xs = g\<lparr>nodes := (nodes g)(n := (nodes g n)\<lparr>inputs := xs\<rparr>)\<rparr>"

definition UpdateTo :: "Graph \<Rightarrow> Edge \<Rightarrow> nat \<Rightarrow> Graph" where
  "UpdateTo g e to = set_inputs g (fst e) ((inputs (nodes g (fst e)))[snd e := to])"

definition ReplaceInput :: "Graph \<Rightarrow> nat \<Rightarrow> nat \<Rightarrow> nat \<Rightarrow> Graph" where
  "ReplaceInput g n i to = UpdateTo g (n, i) to"

definition TrimInputCount :: "Graph \<Rightarrow> nat \<Rightarrow> nat \<Rightarrow> Graph" where
  "TrimInputCount g n k = set_inputs g n (take k (inputs (nodes g n)))"

definition AppendInput :: "Graph \<Rightarrow> nat \<Rightarrow> nat \<Rightarrow> Graph" where
  "AppendInput g n to = set_inputs g n (inputs (nodes g n) @ [to])"

definition set_op :: "Graph \<Rightarrow> nat \<Rightarrow> Operator \<Rightarrow> Graph" where
  "set_op g n new_op = g\<lparr>nodes := (nodes g)(n := (nodes g n)\<lparr>op := new_op\<rparr>)\<rparr>"

definition NullAllInputs :: "Graph \<Rightarrow> nat \<Rightarrow> Graph" where
  "NullAllInputs g n = g\<lparr>nodes := (nodes g)(n := (nodes g n)\<lparr>inputs := [], killed := True\<rparr>)\<rparr>"

text \<open>
  Modelled from the spec: \<^verbatim>\<open>Node::Kill\<close> (clear the inputs, detach from the producers'
  user lists, mark dead). The comment in \<^verbatim>\<open>GraphReducer::Replace\<close> says that an
  assertion in Kill fails when the node still has users other than itself.
\<close>

definition Kill :: "Graph \<Rightarrow> nat \<Rightarrow> error + Graph" where
  "Kill g n =
     (let g' = NullAllInputs g n
      in if use_edges g' n = [] then Inr g' else Inl DCheckFailure)"

text \<open>
  Modelled from the spec: the edge kinds of \<^verbatim>\<open>node-properties.h\<close> (value, effect,
  control). The inputs of a node are laid out by kind: the value inputs first, then the
  effect inputs, then the control inputs, as many of each as the owner's operator says.
\<close>

definition FirstEffectIndex :: "Graph \<Rightarrow> nat \<Rightarrow> nat" where
  "FirstEffectIndex g n = ValueInputCount (op (nodes g n))"

definition FirstControlIndex :: "Graph \<Rightarrow> nat \<Rightarrow> nat" where
  "FirstControlIndex g n = FirstEffectIndex g n + EffectInputCount (op (nodes g n))"

definition IsEffectEdge :: "Graph \<Rightarrow> Edge \<Rightarrow> bool" where
  "IsEffectEdge g e =
     (FirstEffectIndex g (fst e) \<le> snd e \<and>
      snd e < FirstEffectIndex g (fst e) + EffectInputCount (op (nodes g (fst e))))"

definition IsControlEdge :: "Graph \<Rightarrow> Edge \<Rightarrow> bool" where
  "IsControlEdge g e =
     (FirstControlIndex g (fst e) \<le> snd e \<and>
      snd e < FirstControlIndex g (fst e) + ControlInputCount (op (nodes g (fst e))))"



text \<open>
  Modelled from the spec: \<^verbatim>\<open>Verifier::VerifyEdgeInputReplacement\<close> (section 6: a
  verifier that fails fatally if an edge redirection violates the target operator's
  declared kind and arity). The edge is compatible with the replacement when the
  replacement has an output of the edge's kind.
\<close>

definition VerifyEdgeInputReplacement :: "Graph \<Rightarrow> Edge \<Rightarrow> nat \<Rightarrow> bool" where
  "VerifyEdgeInputReplacement g e replacement =
     (if IsControlEdge g e then 0 < ControlOutputCount (op (nodes g replacement))
      else if IsEffectEdge g e then 0 < EffectOutputCount (op (nodes g replacement))
      else 0 < ValueOutputCount (op (nodes g replacement)))"

text \<open>
  Modelled from the spec: \<^verbatim>\<open>CommonOperatorBuilder::ReplacementPlaceholder\<close>, the
  placeholder operator variant matching the given output arities; it takes one input per
  output kind it aliases.
\<close>

definition ReplacementPlaceholder :: "nat \<Rightarrow> nat \<Rightarrow> nat \<Rightarrow> Operator" where
  "ReplacementPlaceholder v e c =
     \<lparr>opcode = kReplacementPlaceholder,
      ValueInputCount = v, EffectInputCount = e, ControlInputCount = c,
      ValueOutputCount = v, EffectOutputCount = e, ControlOutputCount = c\<rparr>"

section \<open>The reducer interface\<close>

text \<open>
  A \<^verbatim>\<open>Reduction\<close> carries the replacement node, null when nothing changed;
  \<^verbatim>\<open>Reducer::NoChange()\<close> and \<^verbatim>\<open>Reducer::Changed(node)\<close> build the two forms.
\<close>

datatype Reduction = Reduction (replacement: "nat option")

definition Changed :: "Reduction \<Rightarrow> bool" where
  "Changed r = (replacement r \<noteq> None)"

definition Reducer_NoChange :: Reduction where
  "Reducer_NoChange = Reduction None"

definition Reducer_Changed :: "nat \<Rightarrow> Reduction" where
  "Reducer_Changed n = Reduction (Some n)"

datatype State = kUnvisited | kRevisit | kOnStack | kVisited

fun State_rank :: "State \<Rightarrow> nat" where
  "State_rank kUnvisited = 0"
| "State_rank kRevisit = 1"
| "State_rank kOnStack = 2"
| "State_rank kVisited = 3"

record NodeState =
  node :: nat
  input_index :: nat

text \<open>
  The members of \<^verbatim>\<open>GraphReducer\<close>. The members drop the trailing underscore of the source. The top of \<open>stack\<close> is the head of the list,
  the front of \<open>revisit\<close> is the head of the list. \<open>reducer_data\<close> stands for the
  private members of the registered reducers.
\<close>

record 'x GraphReducer =
  graph :: Graph
  dead :: "nat option"
  state :: "nat \<Rightarrow> State"
  revisit :: "nat list"
  stack :: "NodeState list"
  nb_traversed_uses :: nat
  nb_visited_nodes :: nat
  revisit_all_nodes :: bool
  reducer_data :: 'x

text \<open>
  A reducer is its two virtual methods. Both run on the whole engine, which they reach
  through the editor interface (Replace, Revisit, ReplaceWithValue), and may abort.
\<close>

record 'x Reducer =
  reducer_Reduce :: "'x GraphReducer \<Rightarrow> nat \<Rightarrow> error + (Reduction \<times> 'x GraphReducer)"
  reducer_Finalize :: "'x GraphReducer \<Rightarrow> error + 'x GraphReducer"

text \<open>
  The flags read by the engine. Modelled from the spec:
  \<^verbatim>\<open>update_and_get_revisit_all_nodes\<close> of \<^verbatim>\<open>graph-reducer.h\<close> (section 4.1, resweep
  heuristic): the flag \<open>revisit_all_nodes\<close> is recomputed from its old value, the
  number of traversed uses and the number of visited nodes, and returned. The configured
  threshold test is the parameter \<open>resweep\<close>.
\<close>

record Flags =
  FLAG_turbo_reduction_placeholder :: bool
  resweep :: "bool \<Rightarrow> nat \<Rightarrow> nat \<Rightarrow> bool"

definition update_and_get_revisit_all_nodes ::
  "Flags \<Rightarrow> nat \<Rightarrow> 'x GraphReducer \<Rightarrow> bool \<times> 'x GraphReducer" where
  "update_and_get_revisit_all_nodes flags n s =
     (let b = resweep flags (revisit_all_nodes s) (nb_traversed_uses s) n
      in (b, s\<lparr>revisit_all_nodes := b\<rparr>))"

section \<open>Reducer dispatch\<close>

text \<open>
  \<^verbatim>\<open>GraphReducer::Reduce\<close>. The iterators \<open>i\<close> and \<open>skip\<close> are positions in the
  reducer list, \<open>reducers_.end()\<close> is its length. The loop also returns the list of
  the reducer calls it made, each with the position of the reducer and its result.
\<close>

partial_function (option) Reduce_loop ::
  "'x Reducer list \<Rightarrow> nat \<Rightarrow> nat \<Rightarrow> nat \<Rightarrow> (nat \<times> Reduction) list \<Rightarrow> 'x GraphReducer \<Rightarrow>
   (error + ((nat \<times> Reduction) list \<times> Reduction \<times> 'x GraphReducer)) option" where
  "Reduce_loop reducers n i skip calls s =
     (if i \<noteq> length reducers then
        (if i \<noteq> skip then
           (case reducer_Reduce (reducers ! i) s n of
              Inl e \<Rightarrow> Some (Inl e)
            | Inr (reduction, s') \<Rightarrow>
                if \<not> Changed reduction then
                  Reduce_loop reducers n (i + 1) skip (calls @ [(i, reduction)]) s'
                else if replacement reduction = Some n then
                  Reduce_loop reducers n 0 i (calls @ [(i, reduction)]) s'
                else Some (Inr (calls @ [(i, reduction)], reduction, s')))
         else Reduce_loop reducers n (i + 1) skip calls s)
      else if skip = length reducers then Some (Inr (calls, Reducer_NoChange, s))
      else Some (Inr (calls, Reducer_Changed n, s)))"

definition Reduce_calls ::
  "'x Reducer list \<Rightarrow> 'x GraphReducer \<Rightarrow> nat \<Rightarrow>
   (error + ((nat \<times> Reduction) list \<times> Reduction \<times> 'x GraphReducer)) option" where
  "Reduce_calls reducers s n = Reduce_loop reducers n 0 (length reducers) [] s"

definition Reduce ::
  "'x Reducer list \<Rightarrow> 'x GraphReducer \<Rightarrow> nat \<Rightarrow> (error + (Reduction \<times> 'x GraphReducer)) option" where
  "Reduce reducers s n =
     (case Reduce_calls reducers s n of
        None \<Rightarrow> None
      | Some (Inl e) \<Rightarrow> Some (Inl e)
      | Some (Inr (calls, reduction, s')) \<Rightarrow> Some (Inr (reduction, s')))"

section \<open>Traversal bookkeeping\<close>

text \<open>\<^verbatim>\<open>Pop\<close>, \<^verbatim>\<open>Push\<close>, \<^verbatim>\<open>Recurse\<close> and \<^verbatim>\<open>Revisit\<close>. A failed
  \<^verbatim>\<open>DCHECK\<close> aborts; reading the top of an empty stack is an abort as well.\<close>

definition Pop :: "'x GraphReducer \<Rightarrow> error + 'x GraphReducer" where
  "Pop s =
     (case stack s of
        [] \<Rightarrow> Inl DCheckFailure
      | entry # rest \<Rightarrow>
          Inr (s\<lparr>state := (state s)(node entry := kVisited),
                 nb_visited_nodes := nb_visited_nodes s + 1,
                 stack := rest\<rparr>))"

definition Push :: "'x GraphReducer \<Rightarrow> nat \<Rightarrow> error + 'x GraphReducer" where
  "Push s n =
     (if state s n = kOnStack then Inl DCheckFailure
      else Inr (s\<lparr>state := (state s)(n := kOnStack),
                  stack := \<lparr>node = n, input_index = 0\<rparr> # stack s\<rparr>))"

definition Recurse :: "'x GraphReducer \<Rightarrow> nat \<Rightarrow> error + (bool \<times> 'x GraphReducer)" where
  "Recurse s n =
     (if State_rank kRevisit < State_rank (state s n) then Inr (False, s)
      else (case Push s n of Inl e \<Rightarrow> Inl e | Inr s' \<Rightarrow> Inr (True, s')))"

definition Revisit :: "'x GraphReducer \<Rightarrow> nat \<Rightarrow> 'x GraphReducer" where
  "Revisit s n =
     (if state s n = kVisited
      then s\<lparr>nb_traversed_uses := nb_traversed_uses s + 1,
             state := (state s)(n := kRevisit),
             revisit := revisit s @ [n]\<rparr>
      else s)"

section \<open>Replacement\<close>

text \<open>The loop \<^verbatim>\<open>while (input->opcode() == IrOpcode::kReplacementPlaceholder)
  input = input->InputAt(0)\<close> of \<^verbatim>\<open>ReduceTop\<close> and \<^verbatim>\<open>Replace\<close>. It does not return
  on a cycle of placeholders.\<close>

partial_function (option) ChasePlaceholder :: "Graph \<Rightarrow> nat \<Rightarrow> (error + nat) option" where
  "ChasePlaceholder g n =
     (if node_opcode g n = kReplacementPlaceholder
      then (case InputAt g n 0 of Inl e \<Rightarrow> Some (Inl e) | Inr m \<Rightarrow> ChasePlaceholder g m)
      else Some (Inr n))"

definition Kill_node :: "'x GraphReducer \<Rightarrow> nat \<Rightarrow> error + 'x GraphReducer" where
  "Kill_node s n = (case Kill (graph s) n of Inl e \<Rightarrow> Inl e | Inr g \<Rightarrow> Inr (s\<lparr>graph := g\<rparr>))"

text \<open>The branches of \<^verbatim>\<open>Replace(node, replacement, max_id)\<close>. Each loop over
  \<^verbatim>\<open>node->use_edges()\<close> runs over the use edges the node has when the loop starts.\<close>

definition Replace_placeholder ::
  "'x GraphReducer \<Rightarrow> nat \<Rightarrow> nat \<Rightarrow> (error + 'x GraphReducer) option" where
  "Replace_placeholder s n r =
     (let g = graph s;
          has_value_output = (if ValueOutputCount (op (nodes g r)) \<noteq> 0 then 1 else 0 :: nat);
          has_effect_output = (if EffectOutputCount (op (nodes g r)) \<noteq> 0 then 1 else 0 :: nat);
          has_control_output = (if ControlOutputCount (op (nodes g r)) \<noteq> 0 then 1 else 0 :: nat);
          nb_total_output = has_value_output + has_effect_output + has_control_output
      in if nb_total_output = 0 \<or> use_edges g n = [] then Some (Kill_node s n)
         else
           (let g1 = TrimInputCount g n 0
            in case ChasePlaceholder g1 r of
                 None \<Rightarrow> None
               | Some (Inl e) \<Rightarrow> Some (Inl e)
               | Some (Inr new_input) \<Rightarrow>
                   Some (Inr (s\<lparr>graph :=
                     set_op (((\<lambda>h. AppendInput h n new_input) ^^ nb_total_output) g1) n
                       (ReplacementPlaceholder has_value_output has_effect_output
                          has_control_output)\<rparr>))))"

fun Replace_eager_edges ::
  "nat \<Rightarrow> nat \<Rightarrow> Edge list \<Rightarrow> 'x GraphReducer \<Rightarrow> error + 'x GraphReducer" where
  "Replace_eager_edges n r [] s = Inr s"
| "Replace_eager_edges n r (edge # es) s =
     (if \<not> VerifyEdgeInputReplacement (graph s) edge r then Inl VerifierFailure
      else
        (let s1 = s\<lparr>graph := UpdateTo (graph s) edge r\<rparr>;
             s2 = (if fst edge \<noteq> n then Revisit s1 (fst edge) else s1)
         in Replace_eager_edges n r es s2))"

definition Replace_eager :: "'x GraphReducer \<Rightarrow> nat \<Rightarrow> nat \<Rightarrow> error + 'x GraphReducer" where
  "Replace_eager s n r =
     (case Replace_eager_edges n r (use_edges (graph s) n) s of
        Inl e \<Rightarrow> Inl e
      | Inr s1 \<Rightarrow> Kill_node s1 n)"

fun Replace_watermark_edges ::
  "nat \<Rightarrow> nat \<Rightarrow> nat \<Rightarrow> Edge list \<Rightarrow> 'x GraphReducer \<Rightarrow> 'x GraphReducer" where
  "Replace_watermark_edges n r max_id [] s = s"
| "Replace_watermark_edges n r max_id (edge # es) s =
     (if fst edge \<le> max_id
      then
        (let s1 = s\<lparr>graph := UpdateTo (graph s) edge r\<rparr>;
             s2 = (if fst edge \<noteq> n then Revisit s1 (fst edge) else s1)
         in Replace_watermark_edges n r max_id es s2)
      else Replace_watermark_edges n r max_id es s)"

definition Replace_watermark ::
  "'x GraphReducer \<Rightarrow> nat \<Rightarrow> nat \<Rightarrow> nat \<Rightarrow> error + 'x GraphReducer" where
  "Replace_watermark s n r max_id =
     (let s1 = Replace_watermark_edges n r max_id (use_edges (graph s) n) s
      in case (if use_edges (graph s1) n = [] then Kill_node s1 n else Inr s1) of
           Inl e \<Rightarrow> Inl e
         | Inr s2 \<Rightarrow> (case Recurse s2 r of Inl e \<Rightarrow> Inl e | Inr (pushed, s3) \<Rightarrow> Inr s3))"

definition SetStart :: "'x GraphReducer \<Rightarrow> nat \<Rightarrow> 'x GraphReducer" where
  "SetStart s n = s\<lparr>graph := (graph s)\<lparr>graph_start := n\<rparr>\<rparr>"

definition SetEnd :: "'x GraphReducer \<Rightarrow> nat \<Rightarrow> 'x GraphReducer" where
  "SetEnd s n = s\<lparr>graph := (graph s)\<lparr>graph_end := n\<rparr>\<rparr>"

definition Replace ::
  "Flags \<Rightarrow> 'x GraphReducer \<Rightarrow> nat \<Rightarrow> nat \<Rightarrow> nat \<Rightarrow> (error + 'x GraphReducer) option" where
  "Replace flags s n r max_id =
     (let s1 = (if n = graph_start (graph s) then SetStart s r else s);
          s2 = (if n = graph_end (graph s1) then SetEnd s1 r else s1)
      in if r \<le> max_id then
           (if FLAG_turbo_reduction_placeholder flags then
              (case update_and_get_revisit_all_nodes flags (nb_visited_nodes s2) s2 of
                 (revisit_all, s3) \<Rightarrow>
                   if revisit_all then Replace_placeholder s3 n r
                   else Some (Replace_eager s3 n r))
            else Some (Replace_eager s2 n r))
         else Some (Replace_watermark s2 n r max_id))"

text \<open>\<^verbatim>\<open>Replace(node, replacement)\<close> passes the largest \<^verbatim>\<open>NodeId\<close>, an unsigned
  32-bit integer.\<close>

definition NodeId_max :: nat where
  "NodeId_max = 2 ^ 32 - 1"







section \<open>The traversal driver\<close>

text \<open>\<^verbatim>\<open>entry.input_index = i + 1\<close> after \<^verbatim>\<open>Recurse\<close> has pushed: \<open>entry\<close> refers
  to the frame that was on top when \<^verbatim>\<open>ReduceTop\<close> started, now the second one.\<close>

definition set_entry_input_index :: "'x GraphReducer \<Rightarrow> nat \<Rightarrow> 'x GraphReducer" where
  "set_entry_input_index s k =
     (case stack s of
        pushed # entry # rest \<Rightarrow> s\<lparr>stack := pushed # entry\<lparr>input_index := k\<rparr> # rest\<rparr>
      | _ \<Rightarrow> s)"

text \<open>The two input loops of \<^verbatim>\<open>ReduceTop\<close> before the reduction have the same body;
  \<open>scan_inputs\<close> runs it over a list of input positions. The result is \<open>True\<close> when
  an input was pushed and \<^verbatim>\<open>ReduceTop\<close> returns.\<close>

fun scan_inputs ::
  "nat \<Rightarrow> nat list \<Rightarrow> 'x GraphReducer \<Rightarrow> (error + (bool \<times> 'x GraphReducer)) option" where
  "scan_inputs n [] s = Some (Inr (False, s))"
| "scan_inputs n (i # is) s =
     (case InputAt (graph s) n i of
        Inl e \<Rightarrow> Some (Inl e)
      | Inr input0 \<Rightarrow>
          (case (if node_opcode (graph s) input0 = kReplacementPlaceholder
                 then (case ChasePlaceholder (graph s) input0 of
                         None \<Rightarrow> None
                       | Some (Inl e) \<Rightarrow> Some (Inl e)
                       | Some (Inr target) \<Rightarrow>
                           Some (Inr (target, s\<lparr>graph := ReplaceInput (graph s) n i target\<rparr>)))
                 else Some (Inr (input0, s))) of
             None \<Rightarrow> None
           | Some (Inl e) \<Rightarrow> Some (Inl e)
           | Some (Inr (input, s1)) \<Rightarrow>
               if input \<noteq> n then
                 (case Recurse s1 input of
                    Inl e \<Rightarrow> Some (Inl e)
                  | Inr (pushed, s2) \<Rightarrow>
                      if pushed then Some (Inr (True, set_entry_input_index s2 (i + 1)))
                      else scan_inputs n is s2)
               else scan_inputs n is s1))"

text \<open>The input loop of \<^verbatim>\<open>ReduceTop\<close> after an in-place reduction.\<close>

fun rescan_inputs ::
  "nat \<Rightarrow> nat list \<Rightarrow> 'x GraphReducer \<Rightarrow> error + (bool \<times> 'x GraphReducer)" where
  "rescan_inputs n [] s = Inr (False, s)"
| "rescan_inputs n (i # is) s =
     (case InputAt (graph s) n i of
        Inl e \<Rightarrow> Inl e
      | Inr input \<Rightarrow>
          if input \<noteq> n then
            (case Recurse s input of
               Inl e \<Rightarrow> Inl e
             | Inr (pushed, s2) \<Rightarrow>
                 if pushed then Inr (True, set_entry_input_index s2 (i + 1))
                 else rescan_inputs n is s2)
          else rescan_inputs n is s)"

text \<open>\<^verbatim>\<open>static_cast<NodeId>(graph()->NodeCount() - 1)\<close>, with the unsigned wrap-around
  written out.\<close>

definition max_node_id :: "Graph \<Rightarrow> nat" where
  "max_node_id g = (if NodeCount g = 0 then NodeId_max else (NodeCount g - 1) mod 2 ^ 32)"

definition Revisit_uses :: "'x GraphReducer \<Rightarrow> nat \<Rightarrow> 'x GraphReducer" where
  "Revisit_uses s n = fold (\<lambda>user s'. if user \<noteq> n then Revisit s' user else s') (uses (graph s) n) s"

text \<open>\<^verbatim>\<open>ReduceTop\<close>, in three parts: what follows the call of \<^verbatim>\<open>Reduce\<close> when the
  reduction changed the node (\<open>ReduceTop_changed\<close>), what follows the input loops
  (\<open>ReduceTop_reduce\<close>), and the function itself.\<close>

definition ReduceTop_changed ::
  "Flags \<Rightarrow> nat \<Rightarrow> nat \<Rightarrow> nat \<Rightarrow> 'x GraphReducer \<Rightarrow> (error + 'x GraphReducer) option" where
  "ReduceTop_changed flags n r max_id s =
     (case (if r = n then rescan_inputs n [0..<InputCount (graph s) n] s else Inr (False, s)) of
        Inl e \<Rightarrow> Some (Inl e)
      | Inr (pushed, s1) \<Rightarrow>
          if pushed then Some (Inr s1)
          else
            (case Pop s1 of
               Inl e \<Rightarrow> Some (Inl e)
             | Inr s2 \<Rightarrow>
                 if r \<noteq> n then Replace flags s2 n r max_id
                 else
                   (case update_and_get_revisit_all_nodes flags (nb_visited_nodes s2) s2 of
                      (revisit_all, s3) \<Rightarrow>
                        if \<not> revisit_all then Some (Inr (Revisit_uses s3 n))
                        else Some (Inr s3))))"

definition ReduceTop_reduce ::
  "'x Reducer list \<Rightarrow> Flags \<Rightarrow> nat \<Rightarrow> 'x GraphReducer \<Rightarrow> (error + 'x GraphReducer) option" where
  "ReduceTop_reduce reducers flags n s =
     (if node_opcode (graph s) n = kReplacementPlaceholder then Some (Pop s)
      else
        (let max_id = max_node_id (graph s)
         in case Reduce reducers s n of
              None \<Rightarrow> None
            | Some (Inl e) \<Rightarrow> Some (Inl e)
            | Some (Inr (reduction, s1)) \<Rightarrow>
                (case replacement reduction of
                   None \<Rightarrow> Some (Pop s1)
                 | Some r \<Rightarrow> ReduceTop_changed flags n r max_id s1)))"

definition ReduceTop ::
  "'x Reducer list \<Rightarrow> Flags \<Rightarrow> 'x GraphReducer \<Rightarrow> (error + 'x GraphReducer) option" where
  "ReduceTop reducers flags s =
     (case stack s of
        [] \<Rightarrow> Some (Inl DCheckFailure)
      | entry # rest \<Rightarrow>
          (let n = node entry
           in if state s n \<noteq> kOnStack then Some (Inl DCheckFailure)
              else if IsDead (graph s) n then Some (Pop s)
              else
                (let count = InputCount (graph s) n;
                     start = (if input_index entry < count then input_index entry else 0)
                 in case scan_inputs n [start..<count] s of
                      None \<Rightarrow> None
                    | Some (Inl e) \<Rightarrow> Some (Inl e)
                    | Some (Inr (pushed, s1)) \<Rightarrow>
                        if pushed then Some (Inr s1)
                        else
                          (case scan_inputs n [0..<start] s1 of
                             None \<Rightarrow> None
                           | Some (Inl e) \<Rightarrow> Some (Inl e)
                           | Some (Inr (pushed', s2)) \<Rightarrow>
                               if pushed' then Some (Inr s2)
                               else ReduceTop_reduce reducers flags n s2))))"

fun RunFinalizers :: "'x Reducer list \<Rightarrow> 'x GraphReducer \<Rightarrow> error + 'x GraphReducer" where
  "RunFinalizers [] s = Inr s"
| "RunFinalizers (reducer # rs) s =
     (case reducer_Finalize reducer s of
        Inl e \<Rightarrow> Inl e
      | Inr s' \<Rightarrow> RunFinalizers rs s')"

definition reset_for_resweep :: "'x GraphReducer \<Rightarrow> 'x GraphReducer" where
  "reset_for_resweep s =
     s\<lparr>revisit_all_nodes := False, nb_traversed_uses := 0, nb_visited_nodes := 0,
       state := (\<lambda>_. kUnvisited)\<rparr>"

text \<open>One iteration of the \<^verbatim>\<open>for (;;)\<close> loop of \<^verbatim>\<open>ReduceNode\<close>; the result is
  \<open>True\<close> at the \<^verbatim>\<open>break\<close>.\<close>

definition ReduceNode_step ::
  "'x Reducer list \<Rightarrow> Flags \<Rightarrow> 'x GraphReducer \<Rightarrow> (error + (bool \<times> 'x GraphReducer)) option" where
  "ReduceNode_step reducers flags s =
     (if stack s \<noteq> [] then
        (case ReduceTop reducers flags s of
           None \<Rightarrow> None
         | Some (Inl e) \<Rightarrow> Some (Inl e)
         | Some (Inr s') \<Rightarrow> Some (Inr (False, s')))
      else if revisit s \<noteq> [] then
        (let n = hd (revisit s);
             s1 = s\<lparr>revisit := tl (revisit s)\<rparr>
         in if state s1 n = kRevisit
            then (case Push s1 n of Inl e \<Rightarrow> Some (Inl e) | Inr s2 \<Rightarrow> Some (Inr (False, s2)))
            else Some (Inr (False, s1)))
      else
        (case update_and_get_revisit_all_nodes flags (nb_visited_nodes s) s of
           (revisit_all, s1) \<Rightarrow>
             if revisit_all then
               (let s2 = reset_for_resweep s1
                in case Push s2 (graph_end (graph s2)) of
                     Inl e \<Rightarrow> Some (Inl e)
                   | Inr s3 \<Rightarrow> Some (Inr (False, s3)))
             else
               (case RunFinalizers reducers s1 of
                  Inl e \<Rightarrow> Some (Inl e)
                | Inr s2 \<Rightarrow> Some (Inr (revisit s2 = [], s2)))))"

partial_function (option) ReduceNode_loop ::
  "'x Reducer list \<Rightarrow> Flags \<Rightarrow> 'x GraphReducer \<Rightarrow> (error + 'x GraphReducer) option" where
  "ReduceNode_loop reducers flags s =
     (case ReduceNode_step reducers flags s of
        None \<Rightarrow> None
      | Some (Inl e) \<Rightarrow> Some (Inl e)
      | Some (Inr (done, s')) \<Rightarrow>
          if done then (if stack s' \<noteq> [] then Some (Inl DCheckFailure) else Some (Inr s'))
          else ReduceNode_loop reducers flags s')"

definition ReduceNode ::
  "'x Reducer list \<Rightarrow> Flags \<Rightarrow> 'x GraphReducer \<Rightarrow> nat \<Rightarrow> (error + 'x GraphReducer) option" where
  "ReduceNode reducers flags s n =
     (if stack s \<noteq> [] \<or> revisit s \<noteq> [] then Some (Inl DCheckFailure)
      else (case Push s n of
              Inl e \<Rightarrow> Some (Inl e)
            | Inr s1 \<Rightarrow> ReduceNode_loop reducers flags s1))"

definition ReduceGraph ::
  "'x Reducer list \<Rightarrow> Flags \<Rightarrow> 'x GraphReducer \<Rightarrow> (error + 'x GraphReducer) option" where
  "ReduceGraph reducers flags s =
     ReduceNode reducers flags
       (s\<lparr>revisit_all_nodes := False, nb_traversed_uses := 0, nb_visited_nodes := 0\<rparr>)
       (graph_end (graph s))"

section \<open>Notions used in the statements\<close>

text \<open>The three kinds of result a reducer reports for node \<open>n\<close>: unchanged is
  \<open>\<not> Changed r\<close>, changed in place is \<open>in_place n r\<close>, replaced by another node is
  \<open>replaced n r\<close>.\<close>

definition in_place :: "nat \<Rightarrow> Reduction \<Rightarrow> bool" where
  "in_place n r = (replacement r = Some n)"

definition replaced :: "nat \<Rightarrow> Reduction \<Rightarrow> bool" where
  "replaced n r = (Changed r \<and> replacement r \<noteq> Some n)"

text \<open>The order of the reducer calls: after a call that changed the node in place the
  next call is to the first reducer other than the one that fired (\<open>restarts\<close>), and
  that reducer is not called again before another reducer has changed the node in place
  (\<open>skips\<close>).\<close>

definition restarts :: "nat \<Rightarrow> (nat \<times> Reduction) list \<Rightarrow> bool" where
  "restarts n calls =
     (\<forall>k. Suc k < length calls \<and> in_place n (snd (calls ! k)) \<longrightarrow>
          fst (calls ! Suc k) = (if fst (calls ! k) = 0 then 1 else 0))"

definition skips :: "nat \<Rightarrow> (nat \<times> Reduction) list \<Rightarrow> bool" where
  "skips n calls =
     (\<forall>k m. k < m \<and> m < length calls \<and> in_place n (snd (calls ! k)) \<and>
            fst (calls ! m) = fst (calls ! k) \<longrightarrow>
          (\<exists>l. k < l \<and> l < m \<and> in_place n (snd (calls ! l))))"

definition last_fired :: "nat \<Rightarrow> nat \<Rightarrow> nat \<Rightarrow> (nat \<times> Reduction) list \<Rightarrow> nat \<Rightarrow> bool" where
  "last_fired n i skip calls p =
     (p < length calls \<and> fst (calls ! p) = skip \<and> in_place n (snd (calls ! p)) \<and>
      (\<forall>q. p < q \<and> q < length calls \<longrightarrow> \<not> in_place n (snd (calls ! q))) \<and>
      (length calls = Suc p \<longrightarrow> i = 0 \<or> (i = 1 \<and> skip = 0)))"

definition skip_inv :: "nat \<Rightarrow> nat \<Rightarrow> nat \<Rightarrow> nat \<Rightarrow> (nat \<times> Reduction) list \<Rightarrow> bool" where
  "skip_inv len n i skip calls =
     (restarts n calls \<and> skips n calls \<and>
      (if skip = len then \<forall>c\<in>set calls. \<not> in_place n (snd c)
       else \<exists>p. last_fired n i skip calls p))"

section \<open>Example graphs and reducers\<close>

definition plain_op :: "nat \<Rightarrow> Operator" where
  "plain_op k =
     \<lparr>opcode = kOther k, ValueInputCount = 0, EffectInputCount = 0, ControlInputCount = 0,
      ValueOutputCount = 1, EffectOutputCount = 0, ControlOutputCount = 0\<rparr>"

text \<open>A reducer that rewrites a node with opcode \<open>kOther a\<close> in place to opcode
  \<open>kOther b\<close> and leaves every other node unchanged.\<close>

definition retag_reducer :: "nat \<Rightarrow> nat \<Rightarrow> unit Reducer" where
  "retag_reducer a b =
     \<lparr>reducer_Reduce = (\<lambda>s n.
        if node_opcode (graph s) n = kOther a
        then Inr (Reducer_Changed n,
                  s\<lparr>graph := set_op (graph s) n ((op (nodes (graph s) n))\<lparr>opcode := kOther b\<rparr>)\<rparr>)
        else Inr (Reducer_NoChange, s)),
      reducer_Finalize = Inr\<rparr>"

definition one_node_graph :: Graph where
  "one_node_graph =
     \<lparr>nodes = (\<lambda>_. \<lparr>op = plain_op 0, inputs = [], killed = False\<rparr>), NodeCount = 1,
      graph_start = 0, graph_end = 0\<rparr>"

definition fresh_engine :: "Graph \<Rightarrow> unit GraphReducer" where
  "fresh_engine g =
     \<lparr>graph = g, dead = None, state = (\<lambda>_. kUnvisited), revisit = [], stack = [],
      nb_traversed_uses = 0, nb_visited_nodes = 0, revisit_all_nodes = False,
      reducer_data = ()\<rparr>"

definition two_retag :: "unit Reducer list" where
  "two_retag = [retag_reducer 0 1, retag_reducer 1 2]"

definition retagged_engine :: "unit GraphReducer" where
  "retagged_engine = (fresh_engine one_node_graph)\<lparr>graph := set_op one_node_graph 0 (plain_op 2)\<rparr>"

section \<open>Auxiliary functions for the proofs about replacement\<close>

text \<open>The graph after a loop that redirects to \<open>r\<close> the edges of a list that satisfy
  \<open>Q\<close>, and the engine after the first two statements of \<^verbatim>\<open>Replace\<close>, which move the
  start and end designation of the graph.\<close>

definition redirect_edges :: "(Edge \<Rightarrow> bool) \<Rightarrow> nat \<Rightarrow> Edge list \<Rightarrow> Graph \<Rightarrow> Graph" where
  "redirect_edges Q r es g = fold (\<lambda>e h. if Q e then UpdateTo h e r else h) es g"

definition Replace_entry :: "'x GraphReducer \<Rightarrow> nat \<Rightarrow> nat \<Rightarrow> 'x GraphReducer" where
  "Replace_entry s n r =
     (let s1 = (if n = graph_start (graph s) then SetStart s r else s)
      in if n = graph_end (graph s1) then SetEnd s1 r else s1)"

section \<open>Example graph for the replacement protocols\<close>

text \<open>Node 0 is used as control input by nodes 1 and 3; node 2 has a value output only.\<close>

definition full_output_op :: Operator where
  "full_output_op =
     \<lparr>opcode = kOther 0, ValueInputCount = 0, EffectInputCount = 0, ControlInputCount = 0,
      ValueOutputCount = 1, EffectOutputCount = 1, ControlOutputCount = 1\<rparr>"

definition control_user_op :: "IrOpcode \<Rightarrow> Operator" where
  "control_user_op c =
     \<lparr>opcode = c, ValueInputCount = 0, EffectInputCount = 0, ControlInputCount = 1,
      ValueOutputCount = 0, EffectOutputCount = 0, ControlOutputCount = 1\<rparr>"

definition watermark_graph :: Graph where
  "watermark_graph =
     \<lparr>nodes = (\<lambda>_. \<lparr>op = plain_op 0, inputs = [], killed = False\<rparr>)
        (0 := \<lparr>op = full_output_op, inputs = [], killed = False\<rparr>,
         1 := \<lparr>op = control_user_op (kOther 1), inputs = [0], killed = False\<rparr>,
         3 := \<lparr>op = control_user_op (kOther 1), inputs = [0], killed = False\<rparr>),
      NodeCount = 4, graph_start = 2, graph_end = 3\<rparr>"

definition eager_flags :: Flags where
  "eager_flags = \<lparr>FLAG_turbo_reduction_placeholder = False, resweep = (\<lambda>_ _ _. False)\<rparr>"

text \<open>Node 0 is used by nodes 1 and 3; node 2 is a placeholder for node 4.\<close>

definition placeholder_graph :: Graph where
  "placeholder_graph =
     \<lparr>nodes = (\<lambda>_. \<lparr>op = plain_op 0, inputs = [], killed = False\<rparr>)
        (0 := \<lparr>op = full_output_op, inputs = [], killed = False\<rparr>,
         1 := \<lparr>op = control_user_op (kOther 1), inputs = [0], killed = False\<rparr>,
         2 := \<lparr>op = ReplacementPlaceholder 1 0 0, inputs = [4], killed = False\<rparr>,
         3 := \<lparr>op = control_user_op (kOther 1), inputs = [0], killed = False\<rparr>),
      NodeCount = 5, graph_start = 4, graph_end = 3\<rparr>"

definition lazy_flags :: Flags where
  "lazy_flags = \<lparr>FLAG_turbo_reduction_placeholder = True, resweep = (\<lambda>_ _ _. True)\<rparr>"

section \<open>Notions for the statements about \<^verbatim>\<open>ReplaceWithValue\<close>\<close>






text \<open>Node 0 has a value user (2), an effect user (3), an \<^verbatim>\<open>IfException\<close> user (4)
  and an \<^verbatim>\<open>IfSuccess\<close> user (5), which node 6 uses; nodes 7 to 10 are the replacements
  and the dead sentinel.\<close>

definition input_op :: "IrOpcode \<Rightarrow> nat \<Rightarrow> nat \<Rightarrow> nat \<Rightarrow> Operator" where
  "input_op c v e k =
     \<lparr>opcode = c, ValueInputCount = v, EffectInputCount = e, ControlInputCount = k,
      ValueOutputCount = 1, EffectOutputCount = 1, ControlOutputCount = 1\<rparr>"



section \<open>Notions for the statements about the traversal\<close>

text \<open>\<open>frames s n\<close> is the number of stack frames that node \<open>n\<close> occupies;
  \<open>OnStack_inv\<close> is the invariant of the visit states; \<open>same_traversal\<close> relates
  two engine states with the same nodes on the stack and the same nodes in state
  \<^verbatim>\<open>kOnStack\<close>; a reducer keeps the traversal when its two methods do, as every
  reducer that acts through the editor interface does; \<open>driver_reaches\<close> relates a
  state of the loop of \<^verbatim>\<open>ReduceNode\<close> to the states of its later iterations.\<close>

definition frames :: "'x GraphReducer \<Rightarrow> nat \<Rightarrow> nat" where
  "frames s n = count_list (map node (stack s)) n"

definition OnStack_inv :: "'x GraphReducer \<Rightarrow> bool" where
  "OnStack_inv s = (\<forall>n. frames s n = (if state s n = kOnStack then 1 else 0))"

definition same_traversal :: "'x GraphReducer \<Rightarrow> 'x GraphReducer \<Rightarrow> bool" where
  "same_traversal s s' =
     (map node (stack s') = map node (stack s) \<and>
      (\<forall>k. (state s' k = kOnStack) = (state s k = kOnStack)))"

definition reducer_keeps_traversal :: "'x Reducer \<Rightarrow> bool" where
  "reducer_keeps_traversal r =
     ((\<forall>s n red s'. reducer_Reduce r s n = Inr (red, s') \<longrightarrow> same_traversal s s') \<and>
      (\<forall>s s'. reducer_Finalize r s = Inr s' \<longrightarrow> same_traversal s s'))"

inductive driver_reaches ::
  "'x Reducer list \<Rightarrow> Flags \<Rightarrow> 'x GraphReducer \<Rightarrow> 'x GraphReducer \<Rightarrow> bool"
  for reducers flags s where
  start: "driver_reaches reducers flags s s"
| step: "driver_reaches reducers flags s t \<Longrightarrow>
         ReduceNode_step reducers flags t = Some (Inr (done, u)) \<Longrightarrow>
         driver_reaches reducers flags s u"


definition pushed_engine :: "unit GraphReducer" where
  "pushed_engine =
     (fresh_engine one_node_graph)\<lparr>state := (\<lambda>_. kUnvisited)(0 := kOnStack),
        stack := [\<lparr>node = 0, input_index = 0\<rparr>]\<rparr>"

section \<open>Examples for the traversal driver\<close>

text \<open>A reducer that changes no node, counts the calls of its finalizer in
  \<open>reducer_data\<close> and asks for node 0 to be revisited in the first call; a graph
  in which node 3 has node 2 as its input.\<close>

definition requeue_reducer :: "nat Reducer" where
  "requeue_reducer =
     \<lparr>reducer_Reduce = (\<lambda>s n. Inr (Reducer_NoChange, s)),
      reducer_Finalize = (\<lambda>s.
        Inr ((if reducer_data s = 0 then Revisit s 0 else s)\<lparr>reducer_data := reducer_data s + 1\<rparr>))\<rparr>"

definition counting_engine :: "nat GraphReducer" where
  "counting_engine =
     \<lparr>graph = one_node_graph, dead = None, state = (\<lambda>_. kUnvisited), revisit = [], stack = [],
      nb_traversed_uses = 0, nb_visited_nodes = 0, revisit_all_nodes = False,
      reducer_data = 0\<rparr>"



section \<open>Notions for the statement about termination\<close>

text \<open>A graph is well formed when every input refers to a created node, no node is a
  placeholder and the end node is a created node; the engine is well formed when its
  graph is and its stack and revisit queue hold created nodes.\<close>

definition graph_ok :: "Graph \<Rightarrow> bool" where
  "graph_ok g =
     ((\<forall>k. \<forall>m\<in>set (inputs (nodes g k)). m < NodeCount g) \<and>
      (\<forall>k. node_opcode g k \<noteq> kReplacementPlaceholder) \<and>
      graph_end g < NodeCount g)"

definition engine_ok :: "'x GraphReducer \<Rightarrow> bool" where
  "engine_ok s =
     (graph_ok (graph s) \<and>
      (\<forall>e\<in>set (stack s). node e < NodeCount (graph s)) \<and>
      (\<forall>m\<in>set (revisit s). m < NodeCount (graph s)))"
















text \<open>\<open>resolves g r t\<close>: following the first input of each placeholder from \<open>r\<close>
  leads, in finitely many steps, to the node \<open>t\<close>, which is not a placeholder.\<close>

inductive resolves :: "Graph \<Rightarrow> nat \<Rightarrow> nat \<Rightarrow> bool" for g where
  here: "node_opcode g t \<noteq> kReplacementPlaceholder \<Longrightarrow> resolves g t t"
| through: "node_opcode g p = kReplacementPlaceholder \<Longrightarrow> InputAt g p 0 = Inr m \<Longrightarrow>
          resolves g m t \<Longrightarrow> resolves g p t"

text \<open>Node 0 is used by node 2, node 3 has no output of any kind, node 5 is its own
  only user.\<close>

definition no_output_op :: Operator where
  "no_output_op =
     \<lparr>opcode = kOther 9, ValueInputCount = 0, EffectInputCount = 0, ControlInputCount = 0,
      ValueOutputCount = 0, EffectOutputCount = 0, ControlOutputCount = 0\<rparr>"

definition sink_graph :: Graph where
  "sink_graph =
     \<lparr>nodes = (\<lambda>_. \<lparr>op = plain_op 0, inputs = [], killed = False\<rparr>)
        (2 := \<lparr>op = input_op (kOther 1) 1 0 0, inputs = [0], killed = False\<rparr>,
         3 := \<lparr>op = no_output_op, inputs = [], killed = False\<rparr>,
         5 := \<lparr>op = input_op (kOther 2) 1 0 0, inputs = [5], killed = False\<rparr>),
      NodeCount = 6, graph_start = 4, graph_end = 2\<rparr>"

text \<open>
  A run of the dispatch as the list of its reducer calls, each with the position of the
  reducer and what it reported. \<open>due len i skip\<close> is the reducer that is called next
  when the iteration stands at \<open>i\<close> and \<open>skip\<close> is passed over; it is \<open>len\<close> when
  the reducers are exhausted. \<open>dispatch_trace len n i skip calls\<close> says that
  \<open>calls\<close> is a complete run from there: every call is to the reducer that is due,
  after a report of no change the iteration moves on, after a report of a change in
  place it starts again at the first reducer and passes over the one that reported, a
  report of a replacement by another node ends the run, and so does exhausting the
  reducers. \<open>run_calls\<close> applies the reducers a run names, one after the other, and
  gives the engine they leave when each reports what the run says.
  \<open>dispatch_result\<close> is the result the specification gives to a run.
\<close>

definition due :: "nat \<Rightarrow> nat \<Rightarrow> nat \<Rightarrow> nat" where
  "due len i skip = (if i < len \<and> i = skip then i + 1 else i)"

fun dispatch_trace :: "nat \<Rightarrow> nat \<Rightarrow> nat \<Rightarrow> nat \<Rightarrow> (nat \<times> Reduction) list \<Rightarrow> bool" where
  "dispatch_trace len n i skip [] = (due len i skip = len)"
| "dispatch_trace len n i skip (c # cs) =
     (fst c = due len i skip \<and> fst c < len \<and>
      (if replaced n (snd c) then cs = []
       else if in_place n (snd c) then dispatch_trace len n 0 (fst c) cs
       else dispatch_trace len n (fst c + 1) skip cs))"

fun run_calls ::
  "'x Reducer list \<Rightarrow> nat \<Rightarrow> (nat \<times> Reduction) list \<Rightarrow> 'x GraphReducer \<Rightarrow>
   'x GraphReducer option" where
  "run_calls reducers n [] s = Some s"
| "run_calls reducers n (c # cs) s =
     (case reducer_Reduce (reducers ! fst c) s n of
        Inl e \<Rightarrow> None
      | Inr (reduction, s') \<Rightarrow>
          if reduction = snd c then run_calls reducers n cs s' else None)"

definition dispatch_result :: "nat \<Rightarrow> (nat \<times> Reduction) list \<Rightarrow> Reduction" where
  "dispatch_result n calls =
     (if calls \<noteq> [] \<and> replaced n (snd (last calls)) then snd (last calls)
      else if \<exists>c\<in>set calls. in_place n (snd c) then Reducer_Changed n
      else Reducer_NoChange)"

text \<open>The result of a run that starts after a reducer has already reported a change in
  place (\<open>fired\<close>).\<close>

definition dispatch_result_from :: "bool \<Rightarrow> nat \<Rightarrow> (nat \<times> Reduction) list \<Rightarrow> Reduction" where
  "dispatch_result_from fired n calls =
     (if calls \<noteq> [] \<and> replaced n (snd (last calls)) then snd (last calls)
      else if fired \<or> (\<exists>c\<in>set calls. in_place n (snd c)) then Reducer_Changed n
      else Reducer_NoChange)"

text \<open>A reducer that reports a change in place on every node and changes nothing.\<close>

definition insistent_reducer :: "unit Reducer" where
  "insistent_reducer =
     \<lparr>reducer_Reduce = (\<lambda>s n. Inr (Reducer_Changed n, s)), reducer_Finalize = Inr\<rparr>"

section \<open>Notions for the statement about the single-node entry point\<close>











text \<open>The remainder of the theory proves properties of these definitions.\<close>

section \<open>Results of the reducer dispatch\<close>

lemma skipsD:
  "skips n calls \<Longrightarrow> k < m \<Longrightarrow> m < length calls \<Longrightarrow> in_place n (snd (calls ! k)) \<Longrightarrow>
   fst (calls ! m) = fst (calls ! k) \<Longrightarrow> \<exists>l. k < l \<and> l < m \<and> in_place n (snd (calls ! l))"
  unfolding skips_def by (drule spec[of _ k], drule spec[of _ m]) simp

lemma skip_inv_skip:
  "skip_inv len n i skip calls \<Longrightarrow> i = skip \<Longrightarrow> i \<noteq> len \<Longrightarrow> skip_inv len n (i + 1) skip calls"
  by (auto simp: skip_inv_def last_fired_def)

lemma restarts_append:
  assumes "skip_inv len n i skip calls" "i \<noteq> skip"
  shows "restarts n (calls @ [(i, r)])"
  unfolding restarts_def
proof (intro allI impI)
  fix k assume k: "Suc k < length (calls @ [(i, r)]) \<and> in_place n (snd ((calls @ [(i, r)]) ! k))"
  show "fst ((calls @ [(i, r)]) ! Suc k) = (if fst ((calls @ [(i, r)]) ! k) = 0 then 1 else 0)"
  proof (cases "Suc k < length calls")
    case True
    with assms(1) k show ?thesis by (simp add: skip_inv_def restarts_def nth_append)
  next
    case False
    with k have kl: "length calls = Suc k" by simp
    with k have ip: "in_place n (snd (calls ! k))" by (simp add: nth_append)
    have "k < length calls" using kl by simp
    with ip have nall: "\<not> (\<forall>c\<in>set calls. \<not> in_place n (snd c))" using nth_mem by blast
    with assms(1) obtain p where p: "last_fired n i skip calls p"
      by (auto simp: skip_inv_def split: if_splits)
    have "p = k"
    proof (rule ccontr)
      assume "p \<noteq> k"
      with p kl have "p < k" by (simp add: last_fired_def)
      with p kl ip show False by (simp add: last_fired_def)
    qed
    with p kl assms(2) show ?thesis by (auto simp: last_fired_def nth_append)
  qed
qed

lemma skips_append:
  assumes "skip_inv len n i skip calls" "i \<noteq> skip"
  shows "skips n (calls @ [(i, r)])"
  unfolding skips_def
proof (intro allI impI)
  fix k m 
  assume h: "k < m \<and> m < length (calls @ [(i, r)]) \<and> in_place n (snd ((calls @ [(i, r)]) ! k)) \<and>
            fst ((calls @ [(i, r)]) ! m) = fst ((calls @ [(i, r)]) ! k)"
  then have km: "k < m" and ml: "m \<le> length calls" by simp_all
  then have kl: "k < length calls" by simp
  with h have ipk: "in_place n (snd (calls ! k))" by (simp add: nth_append)
  show "\<exists>l. k < l \<and> l < m \<and> in_place n (snd ((calls @ [(i, r)]) ! l))"
  proof (cases "m < length calls")
    case True
    from assms(1) have sk: "skips n calls" by (simp add: skip_inv_def)
    from h kl True have "fst (calls ! m) = fst (calls ! k)" by (simp add: nth_append)
    from skipsD[OF sk km True ipk this] obtain l where l: "k < l" "l < m" "in_place n (snd (calls ! l))"
      by blast
    with True have "in_place n (snd ((calls @ [(i, r)]) ! l))" by (simp add: nth_append)
    with l show ?thesis by blast
  next
    case False
    with ml have ml: "m = length calls" by simp
    with h kl have fk: "fst (calls ! k) = i" by (simp add: nth_append)
    from kl ipk have "\<exists>c\<in>set calls. in_place n (snd c)" using nth_mem by blast
    with assms(1) have "skip \<noteq> len" unfolding skip_inv_def by (cases "skip = len") simp_all 
    with assms(1) obtain p where p: "last_fired n i skip calls p"
      unfolding skip_inv_def by auto
    then have pl: "p < length calls" and fp: "fst (calls ! p) = skip" and ipp: "in_place n (snd (calls ! p))"
      and after: "\<forall>q. p < q \<and> q < length calls \<longrightarrow> \<not> in_place n (snd (calls ! q))"
      unfolding last_fired_def by simp_all
    have "k \<noteq> p" using fk fp assms(2) by auto
    moreover have "\<not> p < k" using after kl ipk by blast
    ultimately have kp: "k < p" by arith
    from pl ipp have "in_place n (snd ((calls @ [(i, r)]) ! p))" by (simp add: nth_append)
    with kp pl ml show ?thesis by blast
  qed
qed

lemma skip_inv_unchanged:
  assumes "skip_inv len n i skip calls" "i \<noteq> skip" "\<not> Changed r"
  shows "skip_inv len n (i + 1) skip (calls @ [(i, r)])"
proof -
  have nip: "\<not> in_place n r" using assms(3) by (simp add: in_place_def Changed_def)
  have "(if skip = len then \<forall>c\<in>set (calls @ [(i, r)]). \<not> in_place n (snd c)
       else \<exists>p. last_fired n (i + 1) skip (calls @ [(i, r)]) p)"
  proof (cases "skip = len")
    case True
    with assms(1) nip show ?thesis by (auto simp: skip_inv_def)
  next
    case False
    with assms(1) obtain p where p: "last_fired n i skip calls p"
      by (auto simp: skip_inv_def)
    with nip have "last_fired n (i + 1) skip (calls @ [(i, r)]) p"
      by (auto simp: last_fired_def nth_append)
    with False show ?thesis by auto
  qed
  with restarts_append[OF assms(1,2)] skips_append[OF assms(1,2)] show ?thesis
    unfolding skip_inv_def by blast
qed

lemma skip_inv_in_place:
  assumes "skip_inv len n i skip calls" "i \<noteq> skip" "i \<noteq> len" "replacement r = Some n"
  shows "skip_inv len n 0 i (calls @ [(i, r)])"
proof -
  have "last_fired n 0 i (calls @ [(i, r)]) (length calls)"
    using assms(4) by (auto simp: last_fired_def in_place_def)
  with assms(3) restarts_append[OF assms(1,2)] skips_append[OF assms(1,2)] show ?thesis
    by (auto simp: skip_inv_def)
qed

lemma Reduce_loop_skips:
  assumes "Reduce_loop reducers n i skip calls0 s = Some y"
  shows "\<forall>calls red s'. y = Inr (calls, red, s') \<longrightarrow> skip_inv (length reducers) n i skip calls0 \<longrightarrow>
           restarts n calls \<and> skips n calls"
  using assms
proof (induction reducers n i skip calls0 s y rule: Reduce_loop.raw_induct[rotated 1, consumes 1])
  case (1 loop reducers n i skip calls0 s y)
  show ?case
  proof (intro allI impI)
    fix calls red s'
    assume y: "y = Inr (calls, red, s')" and inv: "skip_inv (length reducers) n i skip calls0"
    show "restarts n calls \<and> skips n calls"
    proof (cases "i = length reducers")
      case True
      with 1(2) y have "calls = calls0" by (auto split: if_splits)
      with inv show ?thesis by (simp add: skip_inv_def)
    next
      case False
      show ?thesis
      proof (cases "i = skip")
        case True
        with False 1(2) have "loop reducers n (i + 1) skip calls0 s = Some y" by simp
        from 1(1)[OF this] y skip_inv_skip[OF inv True False] show ?thesis by blast
      next
        case ne: False
        show ?thesis
        proof (cases "reducer_Reduce (reducers ! i) s n")
          case (Inl e)
          with False ne 1(2) y show ?thesis by simp
        next
          case (Inr p)
          obtain r s1 where p: "p = (r, s1)" by (cases p)
          show ?thesis
          proof (cases "Changed r")
            case nc: False
            with False ne Inr p 1(2) have "loop reducers n (i + 1) skip (calls0 @ [(i, r)]) s1 = Some y" by simp
            from 1(1)[OF this] y skip_inv_unchanged[OF inv ne nc] show ?thesis by blast
          next
            case ch: True
            show ?thesis
            proof (cases "replacement r = Some n")
              case True
              with ch False ne Inr p 1(2) have "loop reducers n 0 i (calls0 @ [(i, r)]) s1 = Some y" by simp
              from 1(1)[OF this] y skip_inv_in_place[OF inv ne False True] show ?thesis by blast
            next
              case nr: False
              with ch False ne Inr p 1(2) y have "calls = calls0 @ [(i, r)]" by auto
              with restarts_append[OF inv ne] skips_append[OF inv ne] show ?thesis by simp
            qed
          qed
        qed
      qed
    qed
  qed
qed

lemma two_retag_calls:
  "Reduce_calls two_retag (fresh_engine one_node_graph) 0 =
     Some (Inr ([(0, Reducer_Changed 0), (1, Reducer_Changed 0), (0, Reducer_NoChange)],
                Reducer_Changed 0, retagged_engine))"
  by (simp add: Reduce_calls_def Reduce_loop.simps two_retag_def retag_reducer_def fresh_engine_def
      one_node_graph_def retagged_engine_def node_opcode_def set_op_def plain_op_def
      Reducer_Changed_def Reducer_NoChange_def Changed_def)


lemma report_cases:
  "(\<not> Changed r \<and> \<not> in_place n r \<and> \<not> replaced n r) \<or>
   (Changed r \<and> in_place n r \<and> \<not> replaced n r \<and> replacement r = Some n) \<or>
   (Changed r \<and> \<not> in_place n r \<and> replaced n r \<and> replacement r \<noteq> Some n)"
  by (auto simp: Changed_def in_place_def replaced_def)

lemma Reduce_loop_due:
  assumes "i \<le> length reducers"
  shows "Reduce_loop reducers n i skip calls s =
         Reduce_loop reducers n (due (length reducers) i skip) skip calls s"
proof (cases "i < length reducers \<and> i = skip")
  case True
  then show ?thesis by (subst Reduce_loop.simps) (simp add: due_def)
next
  case False
  then have "due (length reducers) i skip = i" by (auto simp: due_def)
  then show ?thesis by simp
qed

lemma due_le: "i \<le> len \<Longrightarrow> due len i skip \<le> len"
  by (simp add: due_def)

lemma due_not_skip: "due len i skip < len \<Longrightarrow> due len i skip \<noteq> skip"
  by (auto simp: due_def split: if_splits)

text \<open>The loop at a reducer that is due.\<close>

lemma Reduce_loop_exit:
  "Reduce_loop reducers n (length reducers) skip calls s =
     Some (Inr (calls, if skip = length reducers then Reducer_NoChange else Reducer_Changed n, s))"
  by (subst Reduce_loop.simps) simp

lemma Reduce_loop_call:
  assumes "j < length reducers" "j \<noteq> skip"
  shows "Reduce_loop reducers n j skip calls s =
     (case reducer_Reduce (reducers ! j) s n of
        Inl e \<Rightarrow> Some (Inl e)
      | Inr (reduction, s') \<Rightarrow>
          if replaced n reduction then Some (Inr (calls @ [(j, reduction)], reduction, s'))
          else if in_place n reduction
          then Reduce_loop reducers n 0 j (calls @ [(j, reduction)]) s'
          else Reduce_loop reducers n (j + 1) skip (calls @ [(j, reduction)]) s')"
proof (cases "reducer_Reduce (reducers ! j) s n")
  case (Inl e)
  with assms show ?thesis by (subst Reduce_loop.simps) simp
next
  case (Inr rs)
  obtain red s' where rs: "rs = (red, s')" by (cases rs)
  from report_cases[of red n] Inr rs assms show ?thesis
    by (subst Reduce_loop.simps) auto
qed

lemma due_idem: "due len (due len i skip) skip = due len i skip"
  by (auto simp: due_def)

lemma dispatch_trace_due:
  "dispatch_trace len n (due len i skip) skip cs = dispatch_trace len n i skip cs"
  by (cases cs) (simp_all add: due_idem)

lemma dispatch_result_from_Nil:
  "dispatch_result_from fired n [] = (if fired then Reducer_Changed n else Reducer_NoChange)"
  by (simp add: dispatch_result_from_def)

lemma dispatch_result_from_Cons:
  assumes "replaced n (snd c) \<longrightarrow> cs = []"
  shows "dispatch_result_from fired n (c # cs) =
           (if replaced n (snd c) then snd c
            else dispatch_result_from (fired \<or> in_place n (snd c)) n cs)"
  using assms by (auto simp: dispatch_result_from_def)

lemma dispatch_result_from_start: "dispatch_result_from False n cs = dispatch_result n cs"
  by (simp add: dispatch_result_from_def dispatch_result_def)

text \<open>Every complete run whose calls the reducers answer as the run says is the run of
  the loop: the loop returns, with the result of the run.\<close>

lemma trace_returns:
  "dispatch_trace (length reducers) n i skip cs \<Longrightarrow> i \<le> length reducers \<Longrightarrow>
   run_calls reducers n cs s = Some s' \<Longrightarrow>
   Reduce_loop reducers n i skip calls0 s =
     Some (Inr (calls0 @ cs, dispatch_result_from (skip \<noteq> length reducers) n cs, s'))"
proof (induction cs arbitrary: i skip calls0 s)
  case Nil
  then have "due (length reducers) i skip = length reducers" "s' = s" by simp_all
  then show ?case
    using Reduce_loop_due[OF Nil.prems(2), of n skip calls0 s]
    by (simp add: Reduce_loop_exit dispatch_result_from_Nil)
next
  case (Cons c cs)
  define j where "j = fst c"
  define red where "red = snd c"
  have c: "c = (j, red)" by (simp add: j_def red_def)
  from Cons.prems(1) have j: "j = due (length reducers) i skip" "j < length reducers"
    and rest: "if replaced n red then cs = []
               else if in_place n red then dispatch_trace (length reducers) n 0 j cs
               else dispatch_trace (length reducers) n (j + 1) skip cs"
    unfolding c by (auto split: if_splits)
  from j have ns: "j \<noteq> skip" using due_not_skip[of "length reducers" i skip] by simp
  from Cons.prems(3) obtain s1 where
    call: "reducer_Reduce (reducers ! j) s n = Inr (red, s1)"
    and run: "run_calls reducers n cs s1 = Some s'"
    by (auto simp: c split: sum.splits if_splits)
  have loop: "Reduce_loop reducers n i skip calls0 s =
     (if replaced n red then Some (Inr (calls0 @ [(j, red)], red, s1))
      else if in_place n red then Reduce_loop reducers n 0 j (calls0 @ [(j, red)]) s1
      else Reduce_loop reducers n (j + 1) skip (calls0 @ [(j, red)]) s1)"
    using Reduce_loop_due[OF Cons.prems(2), of n skip calls0 s] j(1)
      Reduce_loop_call[OF j(2) ns, of n calls0 s] call by simp
  have res: "dispatch_result_from (skip \<noteq> length reducers) n (c # cs) =
               (if replaced n red then red
                else dispatch_result_from (skip \<noteq> length reducers \<or> in_place n red) n cs)"
    using rest by (subst dispatch_result_from_Cons) (auto simp: c)
  from report_cases[of red n] show ?case
  proof (elim disjE conjE)
    assume "\<not> in_place n red" "\<not> replaced n red"
    with rest have "dispatch_trace (length reducers) n (j + 1) skip cs" by simp
    from Cons.IH[OF this _ run, of "calls0 @ [(j, red)]"] j(2)
    show ?thesis
      unfolding loop res using \<open>\<not> in_place n red\<close> \<open>\<not> replaced n red\<close> by (simp add: c)
  next
    assume "in_place n red" "\<not> replaced n red"
    with rest have "dispatch_trace (length reducers) n 0 j cs" by simp
    from Cons.IH[OF this _ run, of "calls0 @ [(j, red)]"] j(2)
    show ?thesis
      unfolding loop res using \<open>in_place n red\<close> \<open>\<not> replaced n red\<close> by (simp add: c)
  next
    assume "replaced n red"
    with rest run have "cs = []" "s' = s1" by simp_all
    then show ?thesis unfolding loop res using \<open>replaced n red\<close> by (simp add: c)
  qed
qed

text \<open>Every result of the loop comes from a complete run.\<close>

lemma returns_trace:
  assumes "Reduce_loop reducers n i skip calls0 s = Some y"
  shows "i \<le> length reducers \<longrightarrow>
         (\<forall>calls red s'. y = Inr (calls, red, s') \<longrightarrow>
            (\<exists>cs. calls = calls0 @ cs \<and> dispatch_trace (length reducers) n i skip cs \<and>
                  run_calls reducers n cs s = Some s' \<and>
                  red = dispatch_result_from (skip \<noteq> length reducers) n cs))"
  using assms
proof (induction reducers n i skip calls0 s y rule: Reduce_loop.raw_induct[rotated 1, consumes 1])
  case (1 loop reducers n i skip calls0 s y)
  show ?case
  proof (intro impI allI)
    fix calls red s'
    assume i: "i \<le> length reducers" and y: "y = Inr (calls, red, s')"
    show "\<exists>cs. calls = calls0 @ cs \<and> dispatch_trace (length reducers) n i skip cs \<and>
                run_calls reducers n cs s = Some s' \<and>
                red = dispatch_result_from (skip \<noteq> length reducers) n cs"
    proof (cases "i = length reducers")
      case True
      with 1(2) y have "calls = calls0" "s' = s"
        "red = (if skip = length reducers then Reducer_NoChange else Reducer_Changed n)"
        by (auto split: if_splits)
      with True show ?thesis
        by (intro exI[of _ "[]"]) (simp add: due_def dispatch_result_from_Nil)
    next
      case False
      with i have il: "i < length reducers" by simp
      show ?thesis
      proof (cases "i = skip")
        case True
        with False 1(2) have "loop reducers n (i + 1) skip calls0 s = Some y" by simp
        from 1(1)[OF this] il y obtain cs where
          cs: "calls = calls0 @ cs" "dispatch_trace (length reducers) n (i + 1) skip cs"
          "run_calls reducers n cs s = Some s'"
          "red = dispatch_result_from (skip \<noteq> length reducers) n cs" by auto
        have "due (length reducers) i skip = i + 1" using il True by (simp add: due_def)
        with dispatch_trace_due[of "length reducers" n i skip cs] cs(2)
        have "dispatch_trace (length reducers) n i skip cs" by simp
        with cs show ?thesis by blast
      next
        case ns: False
        then have due: "due (length reducers) i skip = i" by (simp add: due_def)
        show ?thesis
        proof (cases "reducer_Reduce (reducers ! i) s n")
          case (Inl e)
          with False ns 1(2) y show ?thesis by simp
        next
          case (Inr rs)
          obtain r s1 where rs: "rs = (r, s1)" by (cases rs)
          from report_cases[of r n] show ?thesis
          proof (elim disjE conjE)
            assume r: "\<not> Changed r" "\<not> in_place n r" "\<not> replaced n r"
            with False ns Inr rs 1(2) have
              "loop reducers n (i + 1) skip (calls0 @ [(i, r)]) s1 = Some y" by simp
            from 1(1)[OF this] il y obtain cs where
              cs: "calls = (calls0 @ [(i, r)]) @ cs"
              "dispatch_trace (length reducers) n (i + 1) skip cs"
              "run_calls reducers n cs s1 = Some s'"
              "red = dispatch_result_from (skip \<noteq> length reducers) n cs" by auto
            show ?thesis
            proof (intro exI[of _ "(i, r) # cs"] conjI)
              show "calls = calls0 @ (i, r) # cs" using cs(1) by simp
              show "dispatch_trace (length reducers) n i skip ((i, r) # cs)"
                using cs(2) r il due by simp
              show "run_calls reducers n ((i, r) # cs) s = Some s'"
                using cs(3) Inr rs by simp
              show "red = dispatch_result_from (skip \<noteq> length reducers) n ((i, r) # cs)"
                using cs(4) r by (subst dispatch_result_from_Cons) simp_all
            qed
          next
            assume r: "Changed r" "in_place n r" "\<not> replaced n r" "replacement r = Some n"
            with False ns Inr rs 1(2) have
              "loop reducers n 0 i (calls0 @ [(i, r)]) s1 = Some y" by simp
            from 1(1)[OF this] y obtain cs where
              cs: "calls = (calls0 @ [(i, r)]) @ cs"
              "dispatch_trace (length reducers) n 0 i cs"
              "run_calls reducers n cs s1 = Some s'"
              "red = dispatch_result_from (i \<noteq> length reducers) n cs" by auto
            show ?thesis
            proof (intro exI[of _ "(i, r) # cs"] conjI)
              show "calls = calls0 @ (i, r) # cs" using cs(1) by simp
              show "dispatch_trace (length reducers) n i skip ((i, r) # cs)"
                using cs(2) r il due by simp
              show "run_calls reducers n ((i, r) # cs) s = Some s'"
                using cs(3) Inr rs by simp
              show "red = dispatch_result_from (skip \<noteq> length reducers) n ((i, r) # cs)"
                using cs(4) r False by (subst dispatch_result_from_Cons) simp_all
            qed
          next
            assume r: "Changed r" "\<not> in_place n r" "replaced n r" "replacement r \<noteq> Some n"
            with False ns Inr rs 1(2) y have
              "calls = calls0 @ [(i, r)]" "red = r" "s' = s1" by auto
            then show ?thesis
              using r il due Inr rs
              by (intro exI[of _ "[(i, r)]"]) (simp add: dispatch_result_from_def)
          qed
        qed
      qed
    qed
  qed
qed

lemma insistent_loop:
  assumes "Reduce_loop reducers n i skip calls s = Some y"
  shows "reducers = [insistent_reducer, insistent_reducer] \<and> (i = 0 \<or> (i = 1 \<and> skip = 0)) \<longrightarrow>
         False"
  using assms
proof (induction reducers n i skip calls s y rule: Reduce_loop.raw_induct[rotated 1, consumes 1])
  case (1 loop reducers n i skip calls s y)
  show ?case
  proof
    assume a: "reducers = [insistent_reducer, insistent_reducer] \<and> (i = 0 \<or> (i = 1 \<and> skip = 0))"
    then have len: "length reducers = 2" by simp
    from a have call: "reducer_Reduce (reducers ! i) s n = Inr (Reducer_Changed n, s)"
      by (auto simp: insistent_reducer_def)
    have ch: "Changed (Reducer_Changed n)" "replacement (Reducer_Changed n) = Some n"
      by (simp_all add: Changed_def Reducer_Changed_def)
    show False
    proof (cases "i = skip")
      case True
      with a have "i = 0" "skip = 0" by auto
      with 1(2) len have "loop reducers n 1 0 calls s = Some y" by simp
      from 1(1)[OF this] a show False by simp
    next
      case False
      with a len have "i \<noteq> length reducers" by auto
      with False 1(2) call ch have
        "loop reducers n 0 i (calls @ [(i, Reducer_Changed n)]) s = Some y" by simp
      from 1(1)[OF this] a show False by simp
    qed
  qed
qed

text \<open>
  Claim C1, as stated, fails: with two reducers that report a change in place whenever
  they are called, \<^verbatim>\<open>Reduce\<close> starts the iteration again after every call and never
  returns, although a reducer has reported in place and none has reported a replacement
  by another node.
\<close>

theorem Reduce_insistent_counterexample:
  "Reduce [insistent_reducer, insistent_reducer] (fresh_engine one_node_graph) 0 = None"
proof -
  let ?rs = "[insistent_reducer, insistent_reducer]"
  have "Reduce_loop ?rs 0 0 (length ?rs) [] (fresh_engine one_node_graph) = None"
  proof (cases "Reduce_loop ?rs 0 0 (length ?rs) [] (fresh_engine one_node_graph)")
    case None
    then show ?thesis .
  next
    case (Some y)
    from insistent_loop[OF this] show ?thesis by simp
  qed
  then show ?thesis unfolding Reduce_def Reduce_calls_def by simp
qed

text \<open>
  Claim C1, amended. \<^verbatim>\<open>Reduce\<close> returns a result exactly when the calls it makes come
  to an end, that is, when there is a complete run of the dispatch: each call is to the
  reducer that is due and reports what the run says; after a report of no change the
  iteration moves on, after a report of a change in place it starts again at the first
  reducer, a report of a replacement by another node ends the run at once, and otherwise
  the run ends when the reducers are exhausted. The result is then the one the
  specification gives: the replacement that ended the run; otherwise
  \<^verbatim>\<open>Changed(node)\<close> when some call reported a change in place; otherwise
  \<^verbatim>\<open>NoChange\<close>, every reducer having reported no change. The engine returned is the
  one the last call left.
\<close>

theorem Reduce_result:
  "Reduce reducers s n = Some (Inr (reduction, s')) \<longleftrightarrow>
     (\<exists>calls. dispatch_trace (length reducers) n 0 (length reducers) calls \<and>
        run_calls reducers n calls s = Some s' \<and>
        reduction = dispatch_result n calls)"
proof
  assume "Reduce reducers s n = Some (Inr (reduction, s'))"
  then obtain calls where
    "Reduce_loop reducers n 0 (length reducers) [] s = Some (Inr (calls, reduction, s'))"
    by (auto simp: Reduce_def Reduce_calls_def split: option.splits sum.splits)
  from returns_trace[OF this]
  show "\<exists>calls. dispatch_trace (length reducers) n 0 (length reducers) calls \<and>
          run_calls reducers n calls s = Some s' \<and> reduction = dispatch_result n calls"
    by (auto simp: dispatch_result_from_start)
next
  assume "\<exists>calls. dispatch_trace (length reducers) n 0 (length reducers) calls \<and>
            run_calls reducers n calls s = Some s' \<and> reduction = dispatch_result n calls"
  then obtain calls where c: "dispatch_trace (length reducers) n 0 (length reducers) calls"
    "run_calls reducers n calls s = Some s'" "reduction = dispatch_result n calls" by blast
  from trace_returns[OF c(1) _ c(2), of "[]"] c(3)
  show "Reduce reducers s n = Some (Inr (reduction, s'))"
    by (simp add: Reduce_def Reduce_calls_def dispatch_result_from_start)
qed

lemma two_retag_run:
  "dispatch_trace (length two_retag) 0 0 (length two_retag)
     [(0, Reducer_Changed 0), (1, Reducer_Changed 0), (0, Reducer_NoChange)]"
  "run_calls two_retag 0 [(0, Reducer_Changed 0), (1, Reducer_Changed 0), (0, Reducer_NoChange)]
     (fresh_engine one_node_graph) = Some retagged_engine"
  "Reducer_Changed 0 =
     dispatch_result 0 [(0, Reducer_Changed 0), (1, Reducer_Changed 0), (0, Reducer_NoChange)]"
  by (simp_all add: due_def replaced_def in_place_def Changed_def Reducer_Changed_def
      Reducer_NoChange_def dispatch_result_def two_retag_def retag_reducer_def fresh_engine_def
      one_node_graph_def retagged_engine_def node_opcode_def set_op_def plain_op_def)

theorem Reduce_result_witness:
  "dispatch_trace (length two_retag) 0 0 (length two_retag)
     [(0, Reducer_Changed 0), (1, Reducer_Changed 0), (0, Reducer_NoChange)] \<and>
   run_calls two_retag 0 [(0, Reducer_Changed 0), (1, Reducer_Changed 0), (0, Reducer_NoChange)]
     (fresh_engine one_node_graph) = Some retagged_engine \<and>
   Reduce two_retag (fresh_engine one_node_graph) 0 =
     Some (Inr (Reducer_Changed 0, retagged_engine))"
proof -
  have "\<exists>calls. dispatch_trace (length two_retag) 0 0 (length two_retag) calls \<and>
          run_calls two_retag 0 calls (fresh_engine one_node_graph) = Some retagged_engine \<and>
          Reducer_Changed 0 = dispatch_result 0 calls"
    using two_retag_run by blast
  then have "Reduce two_retag (fresh_engine one_node_graph) 0 =
               Some (Inr (Reducer_Changed 0, retagged_engine))"
    by (rule Reduce_result[THEN iffD2])
  with two_retag_run(1,2) show ?thesis by blast
qed

text \<open>
  Claim C2, as stated, fails: with two reducers that each change the node in place once,
  the first reducer changes the node in place in the first call and is called again in
  the third call, after the second reducer has fired.
\<close>

theorem Reduce_skip_counterexample:
  "map_option (map_sum id fst) (Reduce_calls two_retag (fresh_engine one_node_graph) 0) =
     Some (Inr [(0, Reducer_Changed 0), (1, Reducer_Changed 0), (0, Reducer_NoChange)])"
  by (simp add: two_retag_calls)


text \<open>
  Claim C2, amended. After a reducer call that changed the node in place, the next call
  is to the first registered reducer other than the one that fired, and the reducer that
  fired is not called again before some other call has changed the node in place: the
  single iterator \<^verbatim>\<open>skip\<close> remembers the last reducer that fired only.
\<close>

theorem Reduce_restarts_and_skips:
  assumes "Reduce_calls reducers s n = Some (Inr (calls, reduction, s'))"
  shows "(\<forall>k. Suc k < length calls \<and> in_place n (snd (calls ! k)) \<longrightarrow>
            fst (calls ! Suc k) = (if fst (calls ! k) = 0 then 1 else 0)) \<and>
         (\<forall>k m. k < m \<and> m < length calls \<and> in_place n (snd (calls ! k)) \<and>
                fst (calls ! m) = fst (calls ! k) \<longrightarrow>
            (\<exists>l. k < l \<and> l < m \<and> in_place n (snd (calls ! l))))"
proof -
  have "skip_inv (length reducers) n 0 (length reducers) []"
    by (simp add: skip_inv_def restarts_def skips_def)
  with Reduce_loop_skips[OF assms[unfolded Reduce_calls_def]]
  have "restarts n calls \<and> skips n calls" by blast
  then show ?thesis unfolding restarts_def skips_def .
qed

theorem Reduce_restarts_and_skips_witness:
  "Reduce_calls two_retag (fresh_engine one_node_graph) 0 =
     Some (Inr ([(0, Reducer_Changed 0), (1, Reducer_Changed 0), (0, Reducer_NoChange)],
                Reducer_Changed 0, retagged_engine)) \<and>
   (\<exists>l. 0 < l \<and> l < 2 \<and>
      in_place 0 (snd ([(0 :: nat, Reducer_Changed 0), (1, Reducer_Changed 0), (0, Reducer_NoChange)] ! l)))"
proof -
  have ip: "in_place 0 (Reducer_Changed 0)" by (simp add: in_place_def Reducer_Changed_def)
  from Reduce_restarts_and_skips[OF two_retag_calls, THEN conjunct2, rule_format, of 0 2] ip
  have "\<exists>l. 0 < l \<and> l < 2 \<and>
      in_place 0 (snd ([(0 :: nat, Reducer_Changed 0), (1, Reducer_Changed 0), (0, Reducer_NoChange)] ! l))"
    by simp
  with two_retag_calls show ?thesis by simp
qed

section \<open>The replacement protocols\<close>

lemma redirect_edges_Nil [simp]: "redirect_edges Q r [] g = g"
  by (simp add: redirect_edges_def)

lemma redirect_edges_Cons [simp]:
  "redirect_edges Q r (e # es) g = redirect_edges Q r es (if Q e then UpdateTo g e r else g)"
  by (simp add: redirect_edges_def)

lemma UpdateTo_fields [simp]:
  "NodeCount (UpdateTo g e r) = NodeCount g"
  "graph_start (UpdateTo g e r) = graph_start g"
  "graph_end (UpdateTo g e r) = graph_end g"
  "op (nodes (UpdateTo g e r) u) = op (nodes g u)"
  "killed (nodes (UpdateTo g e r) u) = killed (nodes g u)"
  "length (inputs (nodes (UpdateTo g e r) u)) = length (inputs (nodes g u))"
  by (simp_all add: UpdateTo_def set_inputs_def)

lemma UpdateTo_nth:
  "i < length (inputs (nodes g u)) \<Longrightarrow>
   inputs (nodes (UpdateTo g e r) u) ! i = (if e = (u, i) then r else inputs (nodes g u) ! i)"
  by (cases e) (auto simp: UpdateTo_def set_inputs_def nth_list_update)

lemma UpdateTo_other: "fst e \<noteq> u \<Longrightarrow> nodes (UpdateTo g e r) u = nodes g u"
  by (simp add: UpdateTo_def set_inputs_def)

lemma redirect_edges_fields [simp]:
  "NodeCount (redirect_edges Q r es g) = NodeCount g"
  "graph_start (redirect_edges Q r es g) = graph_start g"
  "graph_end (redirect_edges Q r es g) = graph_end g"
  "op (nodes (redirect_edges Q r es g) u) = op (nodes g u)"
  "killed (nodes (redirect_edges Q r es g) u) = killed (nodes g u)"
  "length (inputs (nodes (redirect_edges Q r es g) u)) = length (inputs (nodes g u))"
  by (induction es arbitrary: g; simp)+

lemma redirect_edges_nth:
  "i < length (inputs (nodes g u)) \<Longrightarrow>
   inputs (nodes (redirect_edges Q r es g) u) ! i =
     (if (u, i) \<in> set es \<and> Q (u, i) then r else inputs (nodes g u) ! i)"
proof (induction es arbitrary: g)
  case Nil
  then show ?case by simp
next
  case (Cons e es)
  then show ?case by (auto simp: UpdateTo_nth)
qed

lemma redirect_edges_other:
  "\<forall>e\<in>set es. Q e \<longrightarrow> fst e \<noteq> u \<Longrightarrow> nodes (redirect_edges Q r es g) u = nodes g u"
  by (induction es arbitrary: g) (auto simp: UpdateTo_other)

lemma in_use_edges:
  "(u, i) \<in> set (use_edges g n) \<longleftrightarrow>
     u < NodeCount g \<and> i < length (inputs (nodes g u)) \<and> inputs (nodes g u) ! i = n"
  by (auto simp: use_edges_def edges_from_def InputCount_def)

lemma use_edges_empty:
  "use_edges g n = [] \<longleftrightarrow> (\<forall>u i. \<not> (u < NodeCount g \<and> i < length (inputs (nodes g u)) \<and> inputs (nodes g u) ! i = n))"
proof -
  have "use_edges g n = [] \<longleftrightarrow> (\<forall>u i. (u, i) \<notin> set (use_edges g n))"
    by (cases "use_edges g n") auto
  then show ?thesis by (simp add: in_use_edges)
qed

lemma in_use_edges_redirect:
  assumes "r \<noteq> n"
  shows "(u, i) \<in> set (use_edges (redirect_edges Q r (use_edges g n) g) n) \<longleftrightarrow>
         (u, i) \<in> set (use_edges g n) \<and> \<not> Q (u, i)"
  using assms by (auto simp: in_use_edges redirect_edges_nth split: if_splits)

lemma Revisit_fields [simp]:
  "graph (Revisit s u) = graph s"
  "stack (Revisit s u) = stack s"
  "dead (Revisit s u) = dead s"
  "reducer_data (Revisit s u) = reducer_data s"
  by (simp_all add: Revisit_def)

lemma Revisit_state:
  "state (Revisit s u) k = (if k = u \<and> state s u = kVisited then kRevisit else state s k)"
  by (simp add: Revisit_def)

lemma Revisit_state_other: "k \<noteq> u \<Longrightarrow> state (Revisit s u) k = state s k"
  by (simp add: Revisit_def)

lemma Replace_watermark_edges_graph:
  "graph (Replace_watermark_edges n r m es s) = redirect_edges (\<lambda>e. fst e \<le> m) r es (graph s)"
  by (induction es arbitrary: s) (simp_all add: Let_def)

lemma Replace_watermark_edges_stack [simp]:
  "stack (Replace_watermark_edges n r m es s) = stack s"
  by (induction es arbitrary: s) (simp_all add: Let_def)

lemma Replace_watermark_edges_state:
  "m < k \<Longrightarrow> state (Replace_watermark_edges n r m es s) k = state s k"
  by (induction es arbitrary: s) (auto simp: Let_def Revisit_state_other)

lemma Verify_UpdateTo [simp]:
  "VerifyEdgeInputReplacement (UpdateTo g e' r') e r = VerifyEdgeInputReplacement g e r"
  by (simp add: VerifyEdgeInputReplacement_def IsControlEdge_def IsEffectEdge_def
      FirstControlIndex_def FirstEffectIndex_def)






lemma in_use_edges_NullAllInputs:
  "(u, i) \<in> set (use_edges (NullAllInputs g n) k) \<longleftrightarrow> u \<noteq> n \<and> (u, i) \<in> set (use_edges g k)"
  by (auto simp: in_use_edges NullAllInputs_def)

lemma Kill_unused:
  "use_edges g n = [] \<Longrightarrow> Kill g n = Inr (NullAllInputs g n)"
proof -
  assume "use_edges g n = []"
  then have "\<forall>u i. (u, i) \<notin> set (use_edges (NullAllInputs g n) n)"
    by (simp add: in_use_edges_NullAllInputs)
  then have "use_edges (NullAllInputs g n) n = []"
    by (cases "use_edges (NullAllInputs g n) n") auto
  then show ?thesis by (simp add: Kill_def)
qed

lemma Recurse_cases:
  "Recurse s r =
     (if State_rank kRevisit < State_rank (state s r) then Inr (False, s)
      else Inr (True, s\<lparr>state := (state s)(r := kOnStack),
                         stack := \<lparr>node = r, input_index = 0\<rparr> # stack s\<rparr>))"
  by (cases "state s r") (simp_all add: Recurse_def Push_def)



lemma use_edges_cong:
  "nodes g = nodes g' \<Longrightarrow> NodeCount g = NodeCount g' \<Longrightarrow> use_edges g n = use_edges g' n"
proof -
  assume a: "nodes g = nodes g'" "NodeCount g = NodeCount g'"
  then have "edges_from g n = edges_from g' n"
    by (intro ext) (simp add: edges_from_def InputCount_def)
  with a show ?thesis by (simp add: use_edges_def)
qed

lemma Verify_cong:
  "nodes g = nodes g' \<Longrightarrow> VerifyEdgeInputReplacement g e r = VerifyEdgeInputReplacement g' e r"
  by (simp add: VerifyEdgeInputReplacement_def IsControlEdge_def IsEffectEdge_def
      FirstControlIndex_def FirstEffectIndex_def)

lemma Replace_entry_fields [simp]:
  "nodes (graph (Replace_entry s n r)) = nodes (graph s)"
  "NodeCount (graph (Replace_entry s n r)) = NodeCount (graph s)"
  "state (Replace_entry s n r) = state s"
  "stack (Replace_entry s n r) = stack s"
  "revisit (Replace_entry s n r) = revisit s"
  "dead (Replace_entry s n r) = dead s"
  "nb_visited_nodes (Replace_entry s n r) = nb_visited_nodes s"
  "nb_traversed_uses (Replace_entry s n r) = nb_traversed_uses s"
  "revisit_all_nodes (Replace_entry s n r) = revisit_all_nodes s"
  by (simp_all add: Replace_entry_def SetStart_def SetEnd_def Let_def)

lemma Replace_entry_use_edges [simp]:
  "use_edges (graph (Replace_entry s n r)) k = use_edges (graph s) k"
  by (rule use_edges_cong) simp_all

lemma Replace_entry_Verify [simp]:
  "VerifyEdgeInputReplacement (graph (Replace_entry s n r)) e k = VerifyEdgeInputReplacement (graph s) e k"
  by (rule Verify_cong) simp

lemma Replace_unfold:
  "Replace flags s n r max_id =
     (if r \<le> max_id then
        (if FLAG_turbo_reduction_placeholder flags then
           (case update_and_get_revisit_all_nodes flags (nb_visited_nodes (Replace_entry s n r))
                   (Replace_entry s n r) of
              (revisit_all, s3) \<Rightarrow>
                if revisit_all then Replace_placeholder s3 n r else Some (Replace_eager s3 n r))
         else Some (Replace_eager (Replace_entry s n r) n r))
      else Some (Replace_watermark (Replace_entry s n r) n r max_id))"
  by (simp add: Replace_def Replace_entry_def Let_def)

lemma Replace_watermark_effect:
  assumes "m < r" "r \<noteq> n" "State_rank (state s r) \<le> State_rank kRevisit"
  defines "g1 \<equiv> redirect_edges (\<lambda>e. fst e \<le> m) r (use_edges (graph s) n) (graph s)"
  shows "\<exists>s'. Replace_watermark s n r m = Inr s' \<and>
           graph s' = (if \<forall>e\<in>set (use_edges (graph s) n). fst e \<le> m then NullAllInputs g1 n else g1) \<and>
           stack s' = \<lparr>node = r, input_index = 0\<rparr> # stack s \<and> state s' r = kOnStack"
proof -
  define s1 where "s1 = Replace_watermark_edges n r m (use_edges (graph s) n) s"
  have g: "graph s1 = g1" by (simp add: s1_def g1_def Replace_watermark_edges_graph)
  have st: "state s1 r = state s r" using assms(1) by (simp add: s1_def Replace_watermark_edges_state)
  have stk: "stack s1 = stack s" by (simp add: s1_def)
  have "\<And>u i. (u, i) \<in> set (use_edges g1 n) \<longleftrightarrow> (u, i) \<in> set (use_edges (graph s) n) \<and> \<not> u \<le> m"
    unfolding g1_def using in_use_edges_redirect[OF assms(2), of _ _ "\<lambda>e. fst e \<le> m" "graph s"] by simp
  then have emp: "use_edges g1 n = [] \<longleftrightarrow> (\<forall>e\<in>set (use_edges (graph s) n). fst e \<le> m)"
    by (cases "use_edges g1 n") (auto, force)
  define s2 where "s2 = (if use_edges g1 n = [] then s1\<lparr>graph := NullAllInputs g1 n\<rparr> else s1)"
  have k: "(if use_edges (graph s1) n = [] then Kill_node s1 n else Inr s1) = Inr s2"
    by (simp add: g s2_def Kill_node_def Kill_unused)
  have st2: "state s2 r = state s r" "stack s2 = stack s" using st stk by (simp_all add: s2_def)
  have g2: "graph s2 = (if \<forall>e\<in>set (use_edges (graph s) n). fst e \<le> m then NullAllInputs g1 n else g1)"
    using emp g by (simp add: s2_def)
  have rec: "Recurse s2 r = Inr (True, s2\<lparr>state := (state s2)(r := kOnStack),
                         stack := \<lparr>node = r, input_index = 0\<rparr> # stack s2\<rparr>)"
    using assms(3) st2 by (simp add: Recurse_cases)
  have "Replace_watermark s n r m = Inr (s2\<lparr>state := (state s2)(r := kOnStack),
                         stack := \<lparr>node = r, input_index = 0\<rparr> # stack s2\<rparr>)"
    unfolding Replace_watermark_def Let_def s1_def[symmetric] using k rec by simp
  with g2 st2 show ?thesis by simp
qed

lemma upt_4: "[0..<4] = [0, 1, 2, 3 :: nat]"
  by code_simp

lemma watermark_graph_use_edges: "use_edges watermark_graph 0 = [(1, 0), (3, 0)]"
  by (simp add: use_edges_def edges_from_def InputCount_def watermark_graph_def upt_4)


text \<open>
  Claim C5. On the branch of \<^verbatim>\<open>Replace(node, replacement, max_id)\<close> taken when the
  identifier of the replacement exceeds \<open>max_id\<close>, the call returns; every use edge of
  the node whose owner has an identifier up to \<open>max_id\<close> points at the replacement
  afterwards; every other node with a larger identifier is unchanged; the node is killed
  when no use edge from an owner above \<open>max_id\<close> remains and is not killed otherwise;
  and the replacement, a node not yet visited, is pushed on the stack. The call site in
  \<^verbatim>\<open>ReduceTop\<close> passes a replacement different from the node.
\<close>

theorem Replace_watermark_redirects:
  assumes "max_id < r" "r \<noteq> n" "State_rank (state s r) \<le> State_rank kRevisit"
  shows "\<exists>s'. Replace flags s n r max_id = Some (Inr s') \<and>
           (\<forall>(u, i)\<in>set (use_edges (graph s) n).
               u \<le> max_id \<and> u \<noteq> n \<longrightarrow> inputs (nodes (graph s') u) ! i = r) \<and>
           (\<forall>u. max_id < u \<and> u \<noteq> n \<longrightarrow> nodes (graph s') u = nodes (graph s) u) \<and>
           ((\<forall>e\<in>set (use_edges (graph s) n). fst e \<le> max_id) \<longrightarrow>
               IsDead (graph s') n \<and> inputs (nodes (graph s') n) = []) \<and>
           (\<not> (\<forall>e\<in>set (use_edges (graph s) n). fst e \<le> max_id) \<longrightarrow>
               killed (nodes (graph s') n) = killed (nodes (graph s) n)) \<and>
           stack s' = \<lparr>node = r, input_index = 0\<rparr> # stack s \<and> state s' r = kOnStack"
proof -
  define s0 where "s0 = Replace_entry s n r"
  define g1 where "g1 = redirect_edges (\<lambda>e. fst e \<le> max_id) r (use_edges (graph s) n) (graph s0)"
  have rk: "State_rank (state s0 r) \<le> State_rank kRevisit" using assms(3) by (simp add: s0_def)
  from Replace_watermark_effect[OF assms(1,2) rk]
  obtain s' where w: "Replace_watermark s0 n r max_id = Inr s'"
    and g: "graph s' = (if \<forall>e\<in>set (use_edges (graph s) n). fst e \<le> max_id then NullAllInputs g1 n else g1)"
    and st: "stack s' = \<lparr>node = r, input_index = 0\<rparr> # stack s" "state s' r = kOnStack"
    by (auto simp: s0_def g1_def)
  have R: "Replace flags s n r max_id = Some (Inr s')"
    using assms(1) w by (simp add: Replace_unfold s0_def)
  have other: "\<And>u. u \<noteq> n \<Longrightarrow> nodes (graph s') u = nodes g1 u"
    by (simp add: g NullAllInputs_def)
  have 1: "\<forall>(u, i)\<in>set (use_edges (graph s) n).
               u \<le> max_id \<and> u \<noteq> n \<longrightarrow> inputs (nodes (graph s') u) ! i = r"
  proof (clarify)
    fix u i assume e: "(u, i) \<in> set (use_edges (graph s) n)" and u: "u \<le> max_id" "u \<noteq> n"
    from e have "i < length (inputs (nodes (graph s0) u))" by (simp add: in_use_edges s0_def)
    from redirect_edges_nth[OF this, of "\<lambda>e. fst e \<le> max_id" r "use_edges (graph s) n"] e u
    show "inputs (nodes (graph s') u) ! i = r" by (simp add: other g1_def)
  qed
  have 2: "\<forall>u. max_id < u \<and> u \<noteq> n \<longrightarrow> nodes (graph s') u = nodes (graph s) u"
  proof (clarify)
    fix u assume u: "max_id < u" "u \<noteq> n"
    have "nodes g1 u = nodes (graph s0) u"
      unfolding g1_def by (rule redirect_edges_other) (use u in auto)
    with u show "nodes (graph s') u = nodes (graph s) u" by (simp add: other s0_def)
  qed
  have 3: "(\<forall>e\<in>set (use_edges (graph s) n). fst e \<le> max_id) \<longrightarrow>
               IsDead (graph s') n \<and> inputs (nodes (graph s') n) = []"
    by (simp add: g IsDead_def NullAllInputs_def)
  have 4: "\<not> (\<forall>e\<in>set (use_edges (graph s) n). fst e \<le> max_id) \<longrightarrow>
               killed (nodes (graph s') n) = killed (nodes (graph s) n)"
    by (simp add: g g1_def s0_def)
  from R 1 2 3 4 st show ?thesis by blast
qed

theorem Replace_watermark_redirects_witness:
  "(1 :: nat) < 2 \<and> (2 :: nat) \<noteq> 0 \<and>
   State_rank (state (fresh_engine watermark_graph) 2) \<le> State_rank kRevisit \<and>
   (\<exists>s'. Replace eager_flags (fresh_engine watermark_graph) 0 2 1 = Some (Inr s') \<and>
      inputs (nodes (graph s') 1) ! 0 = 2 \<and>
      nodes (graph s') 3 = nodes watermark_graph 3 \<and>
      killed (nodes (graph s') 0) = killed (nodes watermark_graph 0) \<and>
      stack s' = [\<lparr>node = 2, input_index = 0\<rparr>] \<and> state s' 2 = kOnStack)"
proof -
  have h: "(1 :: nat) < 2" "(2 :: nat) \<noteq> 0"
    "State_rank (state (fresh_engine watermark_graph) 2) \<le> State_rank kRevisit"
    by (simp_all add: fresh_engine_def)
  from Replace_watermark_redirects[OF h, of eager_flags] h show ?thesis
    by (auto simp: watermark_graph_use_edges fresh_engine_def)
qed




lemma ChasePlaceholder_plain:
  "node_opcode g r \<noteq> kReplacementPlaceholder \<Longrightarrow> ChasePlaceholder g r = Some (Inr r)"
  by (subst ChasePlaceholder.simps) simp

lemma AppendInput_nodes:
  "nodes (AppendInput h n t) = (nodes h)(n := (nodes h n)\<lparr>inputs := inputs (nodes h n) @ [t]\<rparr>)"
  by (simp add: AppendInput_def set_inputs_def)

lemma AppendInput_funpow:
  "nodes (((\<lambda>h. AppendInput h n t) ^^ k) g) =
     (nodes g)(n := (nodes g n)\<lparr>inputs := inputs (nodes g n) @ replicate k t\<rparr>)"
proof (induction k)
  case 0
  then show ?case by simp
next
  case (Suc k)
  then show ?case by (auto simp: AppendInput_nodes replicate_append_same fun_eq_iff)
qed

lemma ChasePlaceholder_nodes_mono:
  assumes "ChasePlaceholder g r = Some y" "nodes g = nodes g'"
  shows "ChasePlaceholder g' r = Some y"
  using assms
proof (induction g r y rule: ChasePlaceholder.raw_induct[rotated 1, consumes 1])
  case (1 chase g n y)
  have op: "node_opcode g' n = node_opcode g n" and ia: "InputAt g' n 0 = InputAt g n 0"
    using 1(3) by (simp_all add: node_opcode_def InputAt_def InputCount_def)
  show ?case
  proof (cases "node_opcode g n = kReplacementPlaceholder")
    case True
    show ?thesis
    proof (cases "InputAt g n 0")
      case (Inl e)
      with True 1(2) op ia show ?thesis by (subst ChasePlaceholder.simps) auto
    next
      case (Inr m)
      with True 1(2) have "chase g m = Some y" by simp
      from 1(1)[OF this 1(3)] True Inr op ia show ?thesis
        by (subst ChasePlaceholder.simps) simp
    qed
  next
    case False
    with 1(2) op show ?thesis by (subst ChasePlaceholder.simps) auto
  qed
qed

lemma ChasePlaceholder_cong:
  assumes "nodes g = nodes g'"
  shows "ChasePlaceholder g r = ChasePlaceholder g' r"
proof (cases "ChasePlaceholder g r")
  case None
  show ?thesis
  proof (cases "ChasePlaceholder g' r")
    case None
    with \<open>ChasePlaceholder g r = None\<close> show ?thesis by simp
  next
    case (Some y)
    from ChasePlaceholder_nodes_mono[OF Some assms[symmetric]] None show ?thesis by simp
  qed
next
  case (Some y)
  from ChasePlaceholder_nodes_mono[OF Some assms] Some show ?thesis by simp
qed

lemma TrimInputCount_0:
  "nodes (TrimInputCount g n 0) = (nodes g)(n := (nodes g n)\<lparr>inputs := []\<rparr>)"
  by (simp add: TrimInputCount_def set_inputs_def)

lemma Kill_self_used:
  assumes "\<forall>e\<in>set (use_edges g n). fst e = n"
  shows "Kill g n = Inr (NullAllInputs g n)"
proof -
  from assms have "\<forall>u i. (u, i) \<notin> set (use_edges (NullAllInputs g n) n)"
    by (auto simp: in_use_edges_NullAllInputs)
  then have "use_edges (NullAllInputs g n) n = []"
    by (cases "use_edges (NullAllInputs g n) n") auto
  then show ?thesis by (simp add: Kill_def)
qed

lemma Kill_other_used:
  assumes "\<not> (\<forall>e\<in>set (use_edges g n). fst e = n)"
  shows "Kill g n = Inl DCheckFailure"
proof -
  from assms obtain u i where "(u, i) \<in> set (use_edges g n)" "u \<noteq> n" by auto
  then have "(u, i) \<in> set (use_edges (NullAllInputs g n) n)"
    by (simp add: in_use_edges_NullAllInputs)
  then have "use_edges (NullAllInputs g n) n \<noteq> []" by auto
  then show ?thesis by (simp add: Kill_def)
qed


lemma upt_5: "[0..<5] = [0, 1, 2, 3, 4 :: nat]"
  by code_simp

lemma placeholder_graph_use_edges:
  "use_edges placeholder_graph 0 = [(1, 0), (3, 0)]" "use_edges placeholder_graph 1 = []"
  by (simp_all add: use_edges_def edges_from_def InputCount_def placeholder_graph_def upt_5)

lemma resolves_chase: "resolves g r t \<Longrightarrow> ChasePlaceholder g r = Some (Inr t)"
proof (induction rule: resolves.induct)
  case (here t)
  then show ?case by (rule ChasePlaceholder_plain)
next
  case (through p m t)
  then show ?case by (subst ChasePlaceholder.simps) simp
qed

lemma chase_resolves:
  assumes "ChasePlaceholder g r = Some y"
  shows "\<forall>t. y = Inr t \<longrightarrow> resolves g r t"
  using assms
proof (induction g r y rule: ChasePlaceholder.raw_induct[rotated 1, consumes 1])
  case (1 chase g n y)
  show ?case
  proof (cases "node_opcode g n = kReplacementPlaceholder")
    case True
    show ?thesis
    proof (cases "InputAt g n 0")
      case (Inl e)
      with True 1(2) show ?thesis by auto
    next
      case (Inr m)
      with True 1(2) have "chase g m = Some y" by simp
      from 1(1)[OF this] True Inr show ?thesis by (auto intro: resolves.through)
    qed
  next
    case False
    with 1(2) show ?thesis by (auto intro: resolves.here)
  qed
qed

lemma upt_6: "[0..<6] = [0, 1, 2, 3, 4, 5 :: nat]"
  by code_simp

lemma sink_graph_use_edges:
  "use_edges sink_graph 0 = [(2, 0)]" "use_edges sink_graph 5 = [(5, 0)]"
  "use_edges sink_graph 2 = []"
  by (simp_all add: use_edges_def edges_from_def InputCount_def sink_graph_def upt_6)

text \<open>
  Claim C6, as stated, fails: when the replacement has no output of any kind and the
  node still has a user other than itself, the lazy branch of \<^verbatim>\<open>Replace\<close> calls Kill,
  whose assertion fails, and the node is not killed.
\<close>

theorem Replace_placeholder_counterexample:
  "ValueOutputCount (op (nodes sink_graph 3)) = 0 \<and>
   EffectOutputCount (op (nodes sink_graph 3)) = 0 \<and>
   ControlOutputCount (op (nodes sink_graph 3)) = 0 \<and>
   FLAG_turbo_reduction_placeholder lazy_flags \<and>
   Replace lazy_flags (fresh_engine sink_graph) 0 3 3 = Some (Inl DCheckFailure)"
proof -
  have "Kill (graph (Replace_entry (fresh_engine sink_graph) 0 3)) 0 = Inl DCheckFailure"
    by (rule Kill_other_used) (simp add: fresh_engine_def sink_graph_use_edges)
  then show ?thesis
    by (simp add: Replace_unfold lazy_flags_def update_and_get_revisit_all_nodes_def
        Replace_placeholder_def Kill_node_def sink_graph_def no_output_op_def fresh_engine_def
        Replace_entry_def SetStart_def SetEnd_def Let_def)
qed

text \<open>
  Claim C6, amended. On the lazy branch of \<^verbatim>\<open>Replace\<close> (the replacement's identifier is
  at most \<open>max_id\<close>, the placeholder flag is set and the resweep heuristic fires): when
  the replacement has no output of any kind or the node has no use edge, Kill is called
  on the node, which kills it when it has no user other than itself and fails the
  assertion of Kill otherwise. In the other case the node's inputs are truncated and the
  replacement is chased through the placeholders: when the chain from the replacement
  ends in a node \<open>t\<close> that is not a placeholder, the call returns, the node's inputs are
  \<open>t\<close> once per output kind of the replacement, its operator is the placeholder
  operator of these arities, it is not killed, and every other node, so every edge of its
  users, is unchanged; the call returns a state only when the chain ends.
\<close>

theorem Replace_placeholder_aliases:
  fixes s :: "'x GraphReducer"
  assumes "r \<le> max_id" "FLAG_turbo_reduction_placeholder flags"
    "resweep flags (revisit_all_nodes s) (nb_traversed_uses s) (nb_visited_nodes s)"
  defines "hv \<equiv> (if ValueOutputCount (op (nodes (graph s) r)) \<noteq> 0 then 1 else 0 :: nat)"
    and "he \<equiv> (if EffectOutputCount (op (nodes (graph s) r)) \<noteq> 0 then 1 else 0 :: nat)"
    and "hc \<equiv> (if ControlOutputCount (op (nodes (graph s) r)) \<noteq> 0 then 1 else 0 :: nat)"
  shows "(hv + he + hc = 0 \<or> use_edges (graph s) n = [] \<longrightarrow>
            (if \<forall>e\<in>set (use_edges (graph s) n). fst e = n
             then \<exists>s'. Replace flags s n r max_id = Some (Inr s') \<and>
                    IsDead (graph s') n \<and> inputs (nodes (graph s') n) = [] \<and>
                    (\<forall>u. u \<noteq> n \<longrightarrow> nodes (graph s') u = nodes (graph s) u)
             else Replace flags s n r max_id = Some (Inl DCheckFailure))) \<and>
         (\<not> (hv + he + hc = 0 \<or> use_edges (graph s) n = []) \<longrightarrow>
            (\<forall>t. resolves (TrimInputCount (graph s) n 0) r t \<longrightarrow>
               (\<exists>s'. Replace flags s n r max_id = Some (Inr s') \<and>
                  inputs (nodes (graph s') n) = replicate (hv + he + hc) t \<and>
                  op (nodes (graph s') n) = ReplacementPlaceholder hv he hc \<and>
                  killed (nodes (graph s') n) = killed (nodes (graph s) n) \<and>
                  (\<forall>u. u \<noteq> n \<longrightarrow> nodes (graph s') u = nodes (graph s) u))) \<and>
            (\<forall>s'. Replace flags s n r max_id = Some (Inr s') \<longrightarrow>
               (\<exists>t. resolves (TrimInputCount (graph s) n 0) r t)))"
proof -
  define s0 where "s0 = (Replace_entry s n r)\<lparr>revisit_all_nodes := True\<rparr>"
  have R: "Replace flags s n r max_id = Replace_placeholder s0 n r"
    using assms(1-3) by (simp add: Replace_unfold update_and_get_revisit_all_nodes_def s0_def)
  have n0: "nodes (graph s0) = nodes (graph s)" by (simp add: s0_def)
  have u0: "use_edges (graph s0) n = use_edges (graph s) n"
    by (rule use_edges_cong) (simp_all add: s0_def)
  have tn: "nodes (TrimInputCount (graph s0) n 0) = nodes (TrimInputCount (graph s) n 0)"
    by (simp add: TrimInputCount_0 n0)
  have ch: "ChasePlaceholder (TrimInputCount (graph s0) n 0) r =
            ChasePlaceholder (TrimInputCount (graph s) n 0) r"
    by (rule ChasePlaceholder_cong[OF tn])
  have nb: "(if ValueOutputCount (op (nodes (graph s0) r)) \<noteq> 0 then 1 else 0 :: nat) = hv"
    "(if EffectOutputCount (op (nodes (graph s0) r)) \<noteq> 0 then 1 else 0 :: nat) = he"
    "(if ControlOutputCount (op (nodes (graph s0) r)) \<noteq> 0 then 1 else 0 :: nat) = hc"
    by (simp_all add: hv_def he_def hc_def n0)
  have P: "Replace_placeholder s0 n r =
     (if hv + he + hc = 0 \<or> use_edges (graph s) n = [] then Some (Kill_node s0 n)
      else (case ChasePlaceholder (TrimInputCount (graph s) n 0) r of
                 None \<Rightarrow> None
               | Some (Inl e) \<Rightarrow> Some (Inl e)
               | Some (Inr new_input) \<Rightarrow>
                   Some (Inr (s0\<lparr>graph :=
                     set_op (((\<lambda>h. AppendInput h n new_input) ^^ (hv + he + hc))
                               (TrimInputCount (graph s0) n 0)) n
                       (ReplacementPlaceholder hv he hc)\<rparr>))))"
    unfolding Replace_placeholder_def Let_def nb u0 ch by simp
  have K1: "if \<forall>e\<in>set (use_edges (graph s) n). fst e = n
             then \<exists>s'. Replace flags s n r max_id = Some (Inr s') \<and>
                    IsDead (graph s') n \<and> inputs (nodes (graph s') n) = [] \<and>
                    (\<forall>u. u \<noteq> n \<longrightarrow> nodes (graph s') u = nodes (graph s) u)
             else Replace flags s n r max_id = Some (Inl DCheckFailure)"
    if c: "hv + he + hc = 0 \<or> use_edges (graph s) n = []"
  proof -
    from c P R have RK: "Replace flags s n r max_id = Some (Kill_node s0 n)" by simp
    show ?thesis
    proof (cases "\<forall>e\<in>set (use_edges (graph s) n). fst e = n")
      case True
      then have "Kill (graph s0) n = Inr (NullAllInputs (graph s0) n)"
        using Kill_self_used[of "graph s0" n] u0 by simp
      then have "Replace flags s n r max_id =
                   Some (Inr (s0\<lparr>graph := NullAllInputs (graph s0) n\<rparr>))"
        using RK by (simp add: Kill_node_def)
      with True show ?thesis by (simp add: IsDead_def NullAllInputs_def n0)
    next
      case False
      then have "Kill (graph s0) n = Inl DCheckFailure"
        using Kill_other_used[of "graph s0" n] u0 by simp
      with RK False show ?thesis by (simp add: Kill_node_def)
    qed
  qed
  have unfold: "Replace flags s n r max_id =
     (case ChasePlaceholder (TrimInputCount (graph s) n 0) r of
                 None \<Rightarrow> None
               | Some (Inl e) \<Rightarrow> Some (Inl e)
               | Some (Inr new_input) \<Rightarrow>
                   Some (Inr (s0\<lparr>graph :=
                     set_op (((\<lambda>h. AppendInput h n new_input) ^^ (hv + he + hc))
                               (TrimInputCount (graph s0) n 0)) n
                       (ReplacementPlaceholder hv he hc)\<rparr>)))"
    if c: "\<not> (hv + he + hc = 0 \<or> use_edges (graph s) n = [])"
    unfolding R P using c by (simp only: if_False)
  have K2: "\<exists>s'. Replace flags s n r max_id = Some (Inr s') \<and>
                  inputs (nodes (graph s') n) = replicate (hv + he + hc) t \<and>
                  op (nodes (graph s') n) = ReplacementPlaceholder hv he hc \<and>
                  killed (nodes (graph s') n) = killed (nodes (graph s) n) \<and>
                  (\<forall>u. u \<noteq> n \<longrightarrow> nodes (graph s') u = nodes (graph s) u)"
    if c: "\<not> (hv + he + hc = 0 \<or> use_edges (graph s) n = [])"
      and t: "resolves (TrimInputCount (graph s) n 0) r t" for t
  proof -
    define s' where "s' = s0\<lparr>graph :=
                     set_op (((\<lambda>h. AppendInput h n t) ^^ (hv + he + hc))
                               (TrimInputCount (graph s0) n 0)) n
                       (ReplacementPlaceholder hv he hc)\<rparr>"
    have RS: "Replace flags s n r max_id = Some (Inr s')"
      unfolding unfold[OF c] resolves_chase[OF t] by (simp add: s'_def)
    have nd: "nodes (graph s') = (nodes (graph s))(n := (nodes (graph s) n)\<lparr>inputs :=
        replicate (hv + he + hc) t, op := ReplacementPlaceholder hv he hc\<rparr>)"
      by (simp add: s'_def set_op_def AppendInput_funpow TrimInputCount_0 n0)
    from RS nd show ?thesis by simp
  qed
  have K3: "\<exists>t. resolves (TrimInputCount (graph s) n 0) r t"
    if c: "\<not> (hv + he + hc = 0 \<or> use_edges (graph s) n = [])"
      and ret: "Replace flags s n r max_id = Some (Inr s')" for s'
  proof (cases "ChasePlaceholder (TrimInputCount (graph s) n 0) r")
    case None
    with ret show ?thesis unfolding unfold[OF c] by simp
  next
    case (Some y)
    show ?thesis
    proof (cases y)
      case (Inl e)
      with Some ret show ?thesis unfolding unfold[OF c] by simp
    next
      case (Inr t)
      with chase_resolves[OF Some] show ?thesis by blast
    qed
  qed
  from K1 K2 K3 show ?thesis by blast
qed

lemma placeholder_graph_resolves: "resolves (TrimInputCount placeholder_graph 0 0) 2 4"
proof -
  have "resolves (TrimInputCount placeholder_graph 0 0) 4 4"
    by (rule resolves.here)
       (simp add: TrimInputCount_def set_inputs_def placeholder_graph_def node_opcode_def
          plain_op_def)
  then show ?thesis
    by (rule resolves.through[rotated 2])
       (simp_all add: TrimInputCount_def set_inputs_def placeholder_graph_def node_opcode_def
          InputAt_def InputCount_def ReplacementPlaceholder_def)
qed

theorem Replace_placeholder_aliases_witness:
  "(2 :: nat) \<le> 4 \<and> FLAG_turbo_reduction_placeholder lazy_flags \<and>
   resweep lazy_flags (revisit_all_nodes (fresh_engine placeholder_graph))
     (nb_traversed_uses (fresh_engine placeholder_graph))
     (nb_visited_nodes (fresh_engine placeholder_graph)) \<and>
   use_edges placeholder_graph 0 = [(1, 0), (3, 0)] \<and>
   resolves (TrimInputCount placeholder_graph 0 0) 2 4 \<and>
   (\<exists>s'. Replace lazy_flags (fresh_engine placeholder_graph) 0 2 4 = Some (Inr s') \<and>
      inputs (nodes (graph s') 0) = [4] \<and>
      op (nodes (graph s') 0) = ReplacementPlaceholder 1 0 0 \<and>
      nodes (graph s') 1 = nodes placeholder_graph 1 \<and>
      nodes (graph s') 3 = nodes placeholder_graph 3) \<and>
   use_edges placeholder_graph 1 = [] \<and>
   (\<exists>s'. Replace lazy_flags (fresh_engine placeholder_graph) 1 2 4 = Some (Inr s') \<and>
      IsDead (graph s') 1 \<and> inputs (nodes (graph s') 1) = []) \<and>
   (3 :: nat) \<le> 5 \<and> ValueOutputCount (op (nodes sink_graph 3)) = 0 \<and>
   EffectOutputCount (op (nodes sink_graph 3)) = 0 \<and>
   ControlOutputCount (op (nodes sink_graph 3)) = 0 \<and>
   use_edges sink_graph 5 = [(5, 0)] \<and>
   (\<exists>s'. Replace lazy_flags (fresh_engine sink_graph) 5 3 5 = Some (Inr s') \<and>
      IsDead (graph s') 5 \<and> inputs (nodes (graph s') 5) = [])"
proof -
  have h: "(2 :: nat) \<le> 4" "FLAG_turbo_reduction_placeholder lazy_flags"
    "resweep lazy_flags (revisit_all_nodes (fresh_engine placeholder_graph))
       (nb_traversed_uses (fresh_engine placeholder_graph))
       (nb_visited_nodes (fresh_engine placeholder_graph))"
    by (simp_all add: lazy_flags_def)
  have h': "(3 :: nat) \<le> 5" "FLAG_turbo_reduction_placeholder lazy_flags"
    "resweep lazy_flags (revisit_all_nodes (fresh_engine sink_graph))
       (nb_traversed_uses (fresh_engine sink_graph))
       (nb_visited_nodes (fresh_engine sink_graph))"
    by (simp_all add: lazy_flags_def)
  have g: "graph (fresh_engine placeholder_graph) = placeholder_graph"
    "graph (fresh_engine sink_graph) = sink_graph"
    by (simp_all add: fresh_engine_def)
  have o: "ValueOutputCount (op (nodes placeholder_graph 2)) = 1"
    "EffectOutputCount (op (nodes placeholder_graph 2)) = 0"
    "ControlOutputCount (op (nodes placeholder_graph 2)) = 0"
    by (simp_all add: placeholder_graph_def ReplacementPlaceholder_def)
  have z: "ValueOutputCount (op (nodes sink_graph 3)) = 0"
    "EffectOutputCount (op (nodes sink_graph 3)) = 0"
    "ControlOutputCount (op (nodes sink_graph 3)) = 0"
    by (simp_all add: sink_graph_def no_output_op_def)
  have p1: "\<not> ((if ValueOutputCount (op (nodes (graph (fresh_engine placeholder_graph)) 2)) \<noteq> 0
                then 1 else 0 :: nat) +
       (if EffectOutputCount (op (nodes (graph (fresh_engine placeholder_graph)) 2)) \<noteq> 0
        then 1 else 0) +
       (if ControlOutputCount (op (nodes (graph (fresh_engine placeholder_graph)) 2)) \<noteq> 0
        then 1 else 0) = 0 \<or>
       use_edges (graph (fresh_engine placeholder_graph)) 0 = [])"
    by (simp add: g o placeholder_graph_use_edges)
  have p2: "resolves (TrimInputCount (graph (fresh_engine placeholder_graph)) 0 0) 2 4"
    by (simp add: g placeholder_graph_resolves)
  from Replace_placeholder_aliases[OF h, of 0, THEN conjunct2, rule_format, OF p1,
      THEN conjunct1, rule_format, OF p2]
  obtain s' where "Replace lazy_flags (fresh_engine placeholder_graph) 0 2 4 = Some (Inr s')"
    "inputs (nodes (graph s') 0) = [4]" "op (nodes (graph s') 0) = ReplacementPlaceholder 1 0 0"
    "\<forall>u. u \<noteq> 0 \<longrightarrow> nodes (graph s') u = nodes placeholder_graph u"
    by (auto simp: g o)
  then have a: "\<exists>s'. Replace lazy_flags (fresh_engine placeholder_graph) 0 2 4 = Some (Inr s') \<and>
      inputs (nodes (graph s') 0) = [4] \<and>
      op (nodes (graph s') 0) = ReplacementPlaceholder 1 0 0 \<and>
      nodes (graph s') 1 = nodes placeholder_graph 1 \<and>
      nodes (graph s') 3 = nodes placeholder_graph 3"
    by (intro exI[of _ s']) simp
  have q1: "(if ValueOutputCount (op (nodes (graph (fresh_engine placeholder_graph)) 2)) \<noteq> 0
             then 1 else 0 :: nat) +
       (if EffectOutputCount (op (nodes (graph (fresh_engine placeholder_graph)) 2)) \<noteq> 0
        then 1 else 0) +
       (if ControlOutputCount (op (nodes (graph (fresh_engine placeholder_graph)) 2)) \<noteq> 0
        then 1 else 0) = 0 \<or>
       use_edges (graph (fresh_engine placeholder_graph)) 1 = []"
    by (rule disjI2) (simp only: g placeholder_graph_use_edges)
  from Replace_placeholder_aliases[OF h, of 1, THEN conjunct1, rule_format, OF q1]
  have b: "\<exists>s'. Replace lazy_flags (fresh_engine placeholder_graph) 1 2 4 = Some (Inr s') \<and>
      IsDead (graph s') 1 \<and> inputs (nodes (graph s') 1) = []"
    by (simp only: g placeholder_graph_use_edges) (simp, blast)
  have r1: "(if ValueOutputCount (op (nodes (graph (fresh_engine sink_graph)) 3)) \<noteq> 0
             then 1 else 0 :: nat) +
       (if EffectOutputCount (op (nodes (graph (fresh_engine sink_graph)) 3)) \<noteq> 0
        then 1 else 0) +
       (if ControlOutputCount (op (nodes (graph (fresh_engine sink_graph)) 3)) \<noteq> 0
        then 1 else 0) = 0 \<or>
       use_edges (graph (fresh_engine sink_graph)) 5 = []"
    by (rule disjI1) (simp add: g z)
  from Replace_placeholder_aliases[OF h', of 5, THEN conjunct1, rule_format, OF r1]
  have c: "\<exists>s'. Replace lazy_flags (fresh_engine sink_graph) 5 3 5 = Some (Inr s') \<and>
      IsDead (graph s') 5 \<and> inputs (nodes (graph s') 5) = []"
    by (simp only: g sink_graph_use_edges) (simp, blast)
  from a b c h h'(1) z placeholder_graph_use_edges sink_graph_use_edges(2)
    placeholder_graph_resolves
  show ?thesis by blast
qed

section \<open>Kind-aware replacement\<close>












lemma NullAllInputs_fields [simp]:
  "NodeCount (NullAllInputs g n) = NodeCount g"
  "op (nodes (NullAllInputs g n) w) = op (nodes g w)"
  "killed (nodes (NullAllInputs g n) w) = (killed (nodes g w) \<or> w = n)"
  "inputs (nodes (NullAllInputs g n) w) = (if w = n then [] else inputs (nodes g w))"
  by (simp_all add: NullAllInputs_def)










section \<open>The invariant of the visit states\<close>

lemma same_traversal_refl [simp]: "same_traversal s s"
  by (simp add: same_traversal_def)

lemma same_traversal_trans:
  "same_traversal s t \<Longrightarrow> same_traversal t u \<Longrightarrow> same_traversal s u"
  by (simp add: same_traversal_def)

lemma OnStack_inv_same: "same_traversal s s' \<Longrightarrow> OnStack_inv s \<Longrightarrow> OnStack_inv s'"
  by (simp add: same_traversal_def OnStack_inv_def frames_def)

lemma same_traversal_Revisit [simp]: "same_traversal s (Revisit s u)"
  by (auto simp: same_traversal_def Revisit_def)

lemma same_traversal_graph [simp]: "same_traversal s (s\<lparr>graph := g\<rparr>)"
  by (simp add: same_traversal_def)

lemma same_traversal_Revisit_graph [simp]: "same_traversal s (Revisit (s\<lparr>graph := g\<rparr>) u)"
  by (auto simp: same_traversal_def Revisit_def)

lemma same_traversal_Replace_entry [simp]: "same_traversal s (Replace_entry s n r)"
  by (simp add: same_traversal_def)

lemma same_traversal_update_flag:
  "update_and_get_revisit_all_nodes flags k s = (b, s') \<Longrightarrow> same_traversal s s'"
  by (auto simp: update_and_get_revisit_all_nodes_def same_traversal_def Let_def)

lemma same_traversal_Replace_eager_edges:
  "Replace_eager_edges n r es s = Inr s' \<Longrightarrow> same_traversal s s'"
proof (induction es arbitrary: s)
  case Nil
  then show ?case by simp
next
  case (Cons e es)
  define s2 where "s2 = (if fst e \<noteq> n then Revisit (s\<lparr>graph := UpdateTo (graph s) e r\<rparr>) (fst e)
                         else s\<lparr>graph := UpdateTo (graph s) e r\<rparr>)"
  have 1: "same_traversal s s2" by (simp add: s2_def)
  from Cons.prems have 2: "Replace_eager_edges n r es s2 = Inr s'"
    by (simp add: Let_def s2_def split: if_splits)
  from same_traversal_trans[OF 1 Cons.IH[OF 2]] show ?case .
qed

lemma same_traversal_Kill_node: "Kill_node s n = Inr s' \<Longrightarrow> same_traversal s s'"
  by (auto simp: Kill_node_def split: sum.splits)

lemma same_traversal_Replace_eager: "Replace_eager s n r = Inr s' \<Longrightarrow> same_traversal s s'"
  by (auto simp: Replace_eager_def split: sum.splits
      dest: same_traversal_Replace_eager_edges same_traversal_Kill_node same_traversal_trans)

lemma same_traversal_Replace_placeholder:
  "Replace_placeholder s n r = Some (Inr s') \<Longrightarrow> same_traversal s s'"
  by (auto simp: Replace_placeholder_def Let_def split: if_splits option.splits sum.splits
      dest: same_traversal_Kill_node)

lemma same_traversal_Replace_watermark_edges:
  "same_traversal s (Replace_watermark_edges n r m es s)"
proof (induction es arbitrary: s)
  case Nil
  then show ?case by simp
next
  case (Cons e es)
  show ?case
  proof (cases "fst e \<le> m")
    case True
    define s2 where "s2 = (if fst e \<noteq> n then Revisit (s\<lparr>graph := UpdateTo (graph s) e r\<rparr>) (fst e)
                           else s\<lparr>graph := UpdateTo (graph s) e r\<rparr>)"
    have "same_traversal s s2" by (simp add: s2_def)
    from same_traversal_trans[OF this Cons.IH[of s2]] True show ?thesis
      by (simp add: Let_def s2_def)
  next
    case False
    with Cons.IH[of s] show ?thesis by simp
  qed
qed

lemma OnStack_inv_Push: "Push s n = Inr s' \<Longrightarrow> OnStack_inv s \<Longrightarrow> OnStack_inv s'"
  by (auto simp: Push_def OnStack_inv_def frames_def split: if_splits)

lemma OnStack_inv_Pop: "Pop s = Inr s' \<Longrightarrow> OnStack_inv s \<Longrightarrow> OnStack_inv s'"
proof -
  assume p: "Pop s = Inr s'" and inv: "OnStack_inv s"
  then obtain e rest where st: "stack s = e # rest"
    and s': "s' = s\<lparr>state := (state s)(node e := kVisited),
                 nb_visited_nodes := nb_visited_nodes s + 1, stack := rest\<rparr>"
    by (auto simp: Pop_def split: list.splits)
  from inv[unfolded OnStack_inv_def frames_def, rule_format, of "node e"] st
  have "state s (node e) = kOnStack" by (simp split: if_splits)
  with inv st show ?thesis
    unfolding OnStack_inv_def frames_def s'
    by (auto split: if_splits)
qed

lemma OnStack_inv_Recurse: "Recurse s n = Inr (b, s') \<Longrightarrow> OnStack_inv s \<Longrightarrow> OnStack_inv s'"
  by (auto simp: Recurse_def split: if_splits sum.splits dest: OnStack_inv_Push)

lemma OnStack_inv_Replace_watermark:
  assumes "Replace_watermark s n r m = Inr s'" "OnStack_inv s"
  shows "OnStack_inv s'"
proof -
  define s1 where "s1 = Replace_watermark_edges n r m (use_edges (graph s) n) s"
  have 1: "OnStack_inv s1"
    using OnStack_inv_same[OF same_traversal_Replace_watermark_edges assms(2)] by (simp add: s1_def)
  from assms(1) obtain s2 b where s2: "(if use_edges (graph s1) n = [] then Kill_node s1 n else Inr s1) = Inr s2"
    and r: "Recurse s2 r = Inr (b, s')"
    unfolding Replace_watermark_def Let_def s1_def[symmetric] by (auto split: sum.splits)
  from s2 have "same_traversal s1 s2" by (auto split: if_splits dest: same_traversal_Kill_node)
  from OnStack_inv_Recurse[OF r OnStack_inv_same[OF this 1]] show ?thesis .
qed

lemma OnStack_inv_Replace:
  assumes "Replace flags s n r m = Some (Inr s')" "OnStack_inv s"
  shows "OnStack_inv s'"
proof -
  define s0 where "s0 = Replace_entry s n r"
  have 0: "OnStack_inv s0" using OnStack_inv_same[OF same_traversal_Replace_entry assms(2)] by (simp add: s0_def)
  show ?thesis
  proof (cases "r \<le> m")
    case False
    with assms(1) have "Replace_watermark s0 n r m = Inr s'" by (simp add: Replace_unfold s0_def)
    from OnStack_inv_Replace_watermark[OF this 0] show ?thesis .
  next
    case True
    show ?thesis
    proof (cases "FLAG_turbo_reduction_placeholder flags")
      case False
      with True assms(1) have "Replace_eager s0 n r = Inr s'" by (simp add: Replace_unfold s0_def)
      from OnStack_inv_same[OF same_traversal_Replace_eager[OF this] 0] show ?thesis .
    next
      case fl: True
      obtain b s3 where u: "update_and_get_revisit_all_nodes flags (nb_visited_nodes s0) s0 = (b, s3)"
        by (cases "update_and_get_revisit_all_nodes flags (nb_visited_nodes s0) s0")
      have 3: "OnStack_inv s3" using OnStack_inv_same[OF same_traversal_update_flag[OF u] 0] .
      from True fl assms(1) u have "(if b then Replace_placeholder s3 n r else Some (Replace_eager s3 n r)) = Some (Inr s')"
        by (simp add: Replace_unfold s0_def)
      then have "same_traversal s3 s'"
        by (auto split: if_splits dest: same_traversal_Replace_placeholder same_traversal_Replace_eager)
      from OnStack_inv_same[OF this 3] show ?thesis .
    qed
  qed
qed

lemma same_traversal_set_entry_input_index [simp]:
  "same_traversal s (set_entry_input_index s k)"
  by (auto simp: same_traversal_def set_entry_input_index_def split: list.splits)

lemma OnStack_inv_scan_inputs:
  "scan_inputs n is s = Some (Inr (b, s')) \<Longrightarrow> OnStack_inv s \<Longrightarrow> OnStack_inv s'"
proof (induction "is" arbitrary: s)
  case Nil
  then show ?case by simp
next
  case (Cons i "is")
  from Cons.prems(1) obtain input0 where i0: "InputAt (graph s) n i = Inr input0"
    by (auto split: sum.splits)
  define c where "c = (if node_opcode (graph s) input0 = kReplacementPlaceholder
                 then (case ChasePlaceholder (graph s) input0 of
                         None \<Rightarrow> None
                       | Some (Inl e) \<Rightarrow> Some (Inl e)
                       | Some (Inr target) \<Rightarrow>
                           Some (Inr (target, s\<lparr>graph := ReplaceInput (graph s) n i target\<rparr>)))
                 else Some (Inr (input0, s)))"
  from Cons.prems(1) i0 obtain inp s1 where c1: "c = Some (Inr (inp, s1))"
    unfolding c_def by (auto split: option.splits sum.splits if_splits)
  have "same_traversal s s1"
    using c1 unfolding c_def by (auto split: option.splits sum.splits if_splits)
  from OnStack_inv_same[OF this Cons.prems(2)] have 1: "OnStack_inv s1" .
  have rest: "(if inp \<noteq> n then
                 (case Recurse s1 inp of
                    Inl e \<Rightarrow> Some (Inl e)
                  | Inr (pushed, s2) \<Rightarrow>
                      if pushed then Some (Inr (True, set_entry_input_index s2 (i + 1)))
                      else scan_inputs n is s2)
               else scan_inputs n is s1) = Some (Inr (b, s'))"
    using Cons.prems(1) i0 c1 unfolding c_def by simp
  show ?case
  proof (cases "inp \<noteq> n")
    case False
    with rest have "scan_inputs n is s1 = Some (Inr (b, s'))" by simp
    from Cons.IH[OF this 1] show ?thesis .
  next
    case True
    with rest obtain p s2 where r: "Recurse s1 inp = Inr (p, s2)"
      and k: "(if p then Some (Inr (True, set_entry_input_index s2 (i + 1))) else scan_inputs n is s2) = Some (Inr (b, s'))"
      by (auto split: sum.splits)
    from OnStack_inv_Recurse[OF r 1] have 2: "OnStack_inv s2" .
    show ?thesis
    proof (cases p)
      case True
      with k have "s' = set_entry_input_index s2 (i + 1)" by simp
      with OnStack_inv_same[OF same_traversal_set_entry_input_index 2] show ?thesis by simp
    next
      case False
      with k have "scan_inputs n is s2 = Some (Inr (b, s'))" by simp
      from Cons.IH[OF this 2] show ?thesis .
    qed
  qed
qed

lemma OnStack_inv_rescan_inputs:
  "rescan_inputs n is s = Inr (b, s') \<Longrightarrow> OnStack_inv s \<Longrightarrow> OnStack_inv s'"
proof (induction "is" arbitrary: s)
  case Nil
  then show ?case by simp
next
  case (Cons i "is")
  from Cons.prems(1) obtain inp where i0: "InputAt (graph s) n i = Inr inp"
    by (auto split: sum.splits)
  show ?case
  proof (cases "inp \<noteq> n")
    case False
    with Cons.prems(1) i0 have "rescan_inputs n is s = Inr (b, s')" by simp
    from Cons.IH[OF this Cons.prems(2)] show ?thesis .
  next
    case True
    with Cons.prems(1) i0 obtain p s2 where r: "Recurse s inp = Inr (p, s2)"
      and k: "(if p then Inr (True, set_entry_input_index s2 (i + 1)) else rescan_inputs n is s2) = Inr (b, s')"
      by (auto split: sum.splits)
    from OnStack_inv_Recurse[OF r Cons.prems(2)] have 2: "OnStack_inv s2" .
    show ?thesis
    proof (cases p)
      case True
      with k have "s' = set_entry_input_index s2 (i + 1)" by simp
      with OnStack_inv_same[OF same_traversal_set_entry_input_index 2] show ?thesis by simp
    next
      case False
      with k have "rescan_inputs n is s2 = Inr (b, s')" by simp
      from Cons.IH[OF this 2] show ?thesis .
    qed
  qed
qed

lemma same_traversal_Reduce_loop:
  assumes "Reduce_loop reducers n i skip calls0 s = Some y"
  shows "\<forall>calls red s'. y = Inr (calls, red, s') \<longrightarrow> i \<le> length reducers \<longrightarrow>
           (\<forall>r\<in>set reducers. reducer_keeps_traversal r) \<longrightarrow> same_traversal s s'"
  using assms
proof (induction reducers n i skip calls0 s y rule: Reduce_loop.raw_induct[rotated 1, consumes 1])
  case (1 loop reducers n i skip calls0 s y)
  show ?case
  proof (intro allI impI)
    fix calls red s'
    assume y: "y = Inr (calls, red, s')" and il: "i \<le> length reducers"
      and keep: "\<forall>r\<in>set reducers. reducer_keeps_traversal r"
    show "same_traversal s s'"
    proof (cases "i = length reducers")
      case True
      with 1(2) y have "s' = s" by (auto split: if_splits)
      then show ?thesis by simp
    next
      case False
      with il have il': "i + 1 \<le> length reducers" "i < length reducers" by simp_all
      show ?thesis
      proof (cases "i = skip")
        case True
        with False 1(2) have "loop reducers n (i + 1) skip calls0 s = Some y" by simp
        from 1(1)[OF this] y il'(1) keep show ?thesis by blast
      next
        case ne: False
        show ?thesis
        proof (cases "reducer_Reduce (reducers ! i) s n")
          case (Inl e)
          with False ne 1(2) y show ?thesis by simp
        next
          case (Inr p)
          obtain r s1 where p: "p = (r, s1)" by (cases p)
          have "reducer_keeps_traversal (reducers ! i)" using keep il'(2) by simp
          with Inr p have s1: "same_traversal s s1" unfolding reducer_keeps_traversal_def by blast
          show ?thesis
          proof (cases "Changed r")
            case nc: False
            with False ne Inr p 1(2) have "loop reducers n (i + 1) skip (calls0 @ [(i, r)]) s1 = Some y" by simp
            from 1(1)[OF this] y il'(1) keep have "same_traversal s1 s'" by blast
            with s1 show ?thesis by (rule same_traversal_trans)
          next
            case ch: True
            show ?thesis
            proof (cases "replacement r = Some n")
              case True
              with ch False ne Inr p 1(2) have "loop reducers n 0 i (calls0 @ [(i, r)]) s1 = Some y" by simp
              from 1(1)[OF this] y keep have "same_traversal s1 s'" by blast
              with s1 show ?thesis by (rule same_traversal_trans)
            next
              case nr: False
              with ch False ne Inr p 1(2) y have "s' = s1" by auto
              with s1 show ?thesis by simp
            qed
          qed
        qed
      qed
    qed
  qed
qed

lemma same_traversal_Reduce:
  assumes "Reduce reducers s n = Some (Inr (red, s'))" "\<forall>r\<in>set reducers. reducer_keeps_traversal r"
  shows "same_traversal s s'"
proof -
  from assms(1) obtain calls where "Reduce_loop reducers n 0 (length reducers) [] s = Some (Inr (calls, red, s'))"
    by (auto simp: Reduce_def Reduce_calls_def split: option.splits sum.splits)
  from same_traversal_Reduce_loop[OF this] assms(2) show ?thesis by blast
qed

lemma same_traversal_Revisit_uses [simp]: "same_traversal s (Revisit_uses s n)"
proof -
  have "same_traversal s (fold (\<lambda>user s'. if user \<noteq> n then Revisit s' user else s') us s)" for us
  proof (induction us arbitrary: s)
    case Nil
    then show ?case by simp
  next
    case (Cons u us)
    have "same_traversal s (if u \<noteq> n then Revisit s u else s)" by simp
    from same_traversal_trans[OF this Cons.IH] show ?case by simp
  qed
  then show ?thesis by (simp add: Revisit_uses_def)
qed

lemma OnStack_inv_ReduceTop_changed:
  assumes "ReduceTop_changed flags n r max_id s = Some (Inr s')" "OnStack_inv s"
  shows "OnStack_inv s'"
proof -
  from assms(1) obtain p s1 where
    a: "(if r = n then rescan_inputs n [0..<InputCount (graph s) n] s else Inr (False, s)) = Inr (p, s1)"
    by (auto simp: ReduceTop_changed_def split: sum.splits)
  have 1: "OnStack_inv s1"
    using a assms(2) by (auto split: if_splits dest: OnStack_inv_rescan_inputs)
  show ?thesis
  proof (cases p)
    case True
    with assms(1) a have "s' = s1" by (simp add: ReduceTop_changed_def)
    with 1 show ?thesis by simp
  next
    case False
    with assms(1) a obtain s2 where pop: "Pop s1 = Inr s2" 
      and k: "(if r \<noteq> n then Replace flags s2 n r max_id
                 else (case update_and_get_revisit_all_nodes flags (nb_visited_nodes s2) s2 of
                      (revisit_all, s3) \<Rightarrow>
                        if \<not> revisit_all then Some (Inr (Revisit_uses s3 n))
                        else Some (Inr s3))) = Some (Inr s')"
      by (auto simp: ReduceTop_changed_def split: sum.splits)
    from OnStack_inv_Pop[OF pop 1] have 2: "OnStack_inv s2" .
    show ?thesis
    proof (cases "r \<noteq> n")
      case True
      with k have "Replace flags s2 n r max_id = Some (Inr s')" by simp
      from OnStack_inv_Replace[OF this 2] show ?thesis .
    next
      case False
      obtain b s3 where u: "update_and_get_revisit_all_nodes flags (nb_visited_nodes s2) s2 = (b, s3)"
        by (cases "update_and_get_revisit_all_nodes flags (nb_visited_nodes s2) s2")
      have 3: "OnStack_inv s3" using OnStack_inv_same[OF same_traversal_update_flag[OF u] 2] .
      from False k u have "s' = (if \<not> b then Revisit_uses s3 n else s3)" by (auto split: if_splits)
      then have "same_traversal s3 s'" by simp
      from OnStack_inv_same[OF this 3] show ?thesis .
    qed
  qed
qed

lemma OnStack_inv_ReduceTop_reduce:
  assumes "ReduceTop_reduce reducers flags n s = Some (Inr s')" "OnStack_inv s"
    "\<forall>r\<in>set reducers. reducer_keeps_traversal r"
  shows "OnStack_inv s'"
proof (cases "node_opcode (graph s) n = kReplacementPlaceholder")
  case True
  with assms(1) have "Pop s = Inr s'" by (simp add: ReduceTop_reduce_def)
  from OnStack_inv_Pop[OF this assms(2)] show ?thesis .
next
  case False
  with assms(1) obtain red s1 where r: "Reduce reducers s n = Some (Inr (red, s1))"
    and k: "(case replacement red of None \<Rightarrow> Some (Pop s1)
             | Some r \<Rightarrow> ReduceTop_changed flags n r (max_node_id (graph s)) s1) = Some (Inr s')"
    by (auto simp: ReduceTop_reduce_def Let_def split: option.splits sum.splits)
  from OnStack_inv_same[OF same_traversal_Reduce[OF r assms(3)] assms(2)] have 1: "OnStack_inv s1" .
  show ?thesis
  proof (cases "replacement red")
    case None
    with k have "Pop s1 = Inr s'" by simp
    from OnStack_inv_Pop[OF this 1] show ?thesis .
  next
    case (Some r)
    with k have "ReduceTop_changed flags n r (max_node_id (graph s)) s1 = Some (Inr s')" by simp
    from OnStack_inv_ReduceTop_changed[OF this 1] show ?thesis .
  qed
qed

lemma OnStack_inv_ReduceTop:
  assumes "ReduceTop reducers flags s = Some (Inr s')" "OnStack_inv s"
    "\<forall>r\<in>set reducers. reducer_keeps_traversal r"
  shows "OnStack_inv s'"
proof -
  from assms(1) obtain entry rest where st: "stack s = entry # rest"
    by (cases "stack s") (auto simp: ReduceTop_def)
  define n where "n = node entry"
  define count where "count = InputCount (graph s) n"
  define start where "start = (if input_index entry < count then input_index entry else 0)"
  show ?thesis
  proof (cases "IsDead (graph s) n")
    case True
    with assms(1) st have "Pop s = Inr s'"
      by (auto simp: ReduceTop_def Let_def n_def split: if_splits)
    from OnStack_inv_Pop[OF this assms(2)] show ?thesis .
  next
    case False
    with assms(1) st obtain p s1 where a: "scan_inputs n [start..<count] s = Some (Inr (p, s1))"
      and k: "(if p then Some (Inr s1)
               else (case scan_inputs n [0..<start] s1 of
                             None \<Rightarrow> None
                           | Some (Inl e) \<Rightarrow> Some (Inl e)
                           | Some (Inr (pushed', s2)) \<Rightarrow>
                               if pushed' then Some (Inr s2)
                               else ReduceTop_reduce reducers flags n s2)) = Some (Inr s')"
      by (auto simp: ReduceTop_def Let_def n_def count_def start_def split: if_splits option.splits sum.splits)
    from OnStack_inv_scan_inputs[OF a assms(2)] have 1: "OnStack_inv s1" .
    show ?thesis
    proof (cases p)
      case True
      with k 1 show ?thesis by simp
    next
      case np: False
      with k obtain p' s2 where b: "scan_inputs n [0..<start] s1 = Some (Inr (p', s2))"
        and k2: "(if p' then Some (Inr s2) else ReduceTop_reduce reducers flags n s2) = Some (Inr s')"
        by (auto split: option.splits sum.splits)
      from OnStack_inv_scan_inputs[OF b 1] have 2: "OnStack_inv s2" .
      show ?thesis
      proof (cases p')
        case True
        with k2 2 show ?thesis by simp
      next
        case False
        with k2 have "ReduceTop_reduce reducers flags n s2 = Some (Inr s')" by simp
        from OnStack_inv_ReduceTop_reduce[OF this 2 assms(3)] show ?thesis .
      qed
    qed
  qed
qed

lemma same_traversal_RunFinalizers:
  "RunFinalizers reducers s = Inr s' \<Longrightarrow> \<forall>r\<in>set reducers. reducer_keeps_traversal r \<Longrightarrow>
   same_traversal s s'"
proof (induction reducers arbitrary: s)
  case Nil
  then show ?case by simp
next
  case (Cons r rs)
  from Cons.prems(1) obtain s1 where f: "reducer_Finalize r s = Inr s1" and rest: "RunFinalizers rs s1 = Inr s'"
    by (auto split: sum.splits)
  from f Cons.prems(2) have 1: "same_traversal s s1" unfolding reducer_keeps_traversal_def by auto
  from Cons.IH[OF rest] Cons.prems(2) have "same_traversal s1 s'" by simp
  with 1 show ?case by (rule same_traversal_trans)
qed

lemma OnStack_inv_reset:
  "stack s = [] \<Longrightarrow> OnStack_inv (reset_for_resweep s)"
  by (simp add: OnStack_inv_def frames_def reset_for_resweep_def)

lemma OnStack_inv_ReduceNode_step:
  assumes "ReduceNode_step reducers flags s = Some (Inr (done, s'))" "OnStack_inv s"
    "\<forall>r\<in>set reducers. reducer_keeps_traversal r"
  shows "OnStack_inv s'"
proof (cases "stack s \<noteq> []")
  case True
  with assms(1) have "ReduceTop reducers flags s = Some (Inr s')"
    by (auto simp: ReduceNode_step_def split: option.splits sum.splits)
  from OnStack_inv_ReduceTop[OF this assms(2,3)] show ?thesis .
next
  case empty: False
  show ?thesis
  proof (cases "revisit s \<noteq> []")
    case True
    define s1 where "s1 = s\<lparr>revisit := tl (revisit s)\<rparr>"
    have 1: "OnStack_inv s1" using assms(2) by (simp add: s1_def OnStack_inv_def frames_def)
    from assms(1) empty True have
      "(if state s1 (hd (revisit s)) = kRevisit
            then (case Push s1 (hd (revisit s)) of Inl e \<Rightarrow> Some (Inl e) | Inr s2 \<Rightarrow> Some (Inr (False, s2)))
            else Some (Inr (False, s1))) = Some (Inr (done, s'))"
      by (auto simp: ReduceNode_step_def Let_def s1_def split: if_splits)
    then show ?thesis using 1 by (auto split: if_splits sum.splits dest: OnStack_inv_Push)
  next
    case False
    obtain b s1 where u: "update_and_get_revisit_all_nodes flags (nb_visited_nodes s) s = (b, s1)"
      by (cases "update_and_get_revisit_all_nodes flags (nb_visited_nodes s) s")
    have s1: "OnStack_inv s1" "stack s1 = []"
      using OnStack_inv_same[OF same_traversal_update_flag[OF u] assms(2)] u empty
      by (auto simp: update_and_get_revisit_all_nodes_def Let_def)
    show ?thesis
    proof (cases b)
      case True
      with assms(1) empty False u obtain s3 where
        "Push (reset_for_resweep s1) (graph_end (graph (reset_for_resweep s1))) = Inr s3" "s' = s3"
        by (auto simp: ReduceNode_step_def Let_def split: sum.splits)
      with OnStack_inv_Push[OF this(1) OnStack_inv_reset[OF s1(2)]] show ?thesis by simp
    next
      case nb: False
      with assms(1) empty False u have "RunFinalizers reducers s1 = Inr s'"
        by (auto simp: ReduceNode_step_def Let_def split: sum.splits)
      from OnStack_inv_same[OF same_traversal_RunFinalizers[OF this assms(3)] s1(1)] show ?thesis .
    qed
  qed
qed

lemma OnStack_inv_driver_reaches:
  assumes "driver_reaches reducers flags s t" "OnStack_inv s"
    "\<forall>r\<in>set reducers. reducer_keeps_traversal r"
  shows "OnStack_inv t"
  using assms
proof (induction rule: driver_reaches.induct)
  case start
  then show ?case by simp
next
  case (step t "done" u)
  from OnStack_inv_ReduceNode_step[OF step.hyps(2) step.IH[OF step.prems] step.prems(2)] show ?case .
qed

lemma retag_reducer_keeps_traversal: "reducer_keeps_traversal (retag_reducer a b)"
  by (auto simp: reducer_keeps_traversal_def retag_reducer_def split: if_splits)

lemma fresh_engine_OnStack_inv: "OnStack_inv (fresh_engine g)"
  by (simp add: OnStack_inv_def frames_def fresh_engine_def)


text \<open>
  Claim C7. In every state that the loop of \<^verbatim>\<open>ReduceNode\<close> reaches, with reducers that
  act through the editor interface, a node is in state \<^verbatim>\<open>kOnStack\<close> exactly when it
  occupies one stack frame, and occupies none otherwise. There \<^verbatim>\<open>Push\<close> refuses a node
  that is on the stack and keeps the invariant when it pushes, \<^verbatim>\<open>Pop\<close> leaves the popped
  node in state \<^verbatim>\<open>kVisited\<close> and keeps the invariant, and \<^verbatim>\<open>Recurse\<close> does not push a
  node in state \<^verbatim>\<open>kOnStack\<close> or \<^verbatim>\<open>kVisited\<close> and keeps the invariant.
\<close>

theorem OnStack_invariant:
  assumes keep: "\<forall>r\<in>set reducers. reducer_keeps_traversal r"
    and inv0: "OnStack_inv s0" and push: "Push s0 n = Inr s1"
    and run: "driver_reaches reducers flags s1 t"
  shows "(\<forall>k. frames t k = (if state t k = kOnStack then 1 else 0)) \<and>
         (\<forall>k. state t k = kOnStack \<longrightarrow> Push t k = Inl DCheckFailure) \<and>
         (\<forall>k u. Push t k = Inr u \<longrightarrow> state t k \<noteq> kOnStack \<and> OnStack_inv u) \<and>
         (\<forall>u. Pop t = Inr u \<longrightarrow>
            stack t \<noteq> [] \<and> state u (node (hd (stack t))) = kVisited \<and>
            stack u = tl (stack t) \<and> OnStack_inv u) \<and>
         (\<forall>k. state t k = kOnStack \<or> state t k = kVisited \<longrightarrow> Recurse t k = Inr (False, t)) \<and>
         (\<forall>k b u. Recurse t k = Inr (b, u) \<longrightarrow> OnStack_inv u)"
proof -
  have inv: "OnStack_inv t"
    using OnStack_inv_driver_reaches[OF run OnStack_inv_Push[OF push inv0] keep] .
  have 1: "\<forall>k. frames t k = (if state t k = kOnStack then 1 else 0)"
    using inv by (simp add: OnStack_inv_def)
  have 2: "\<forall>k. state t k = kOnStack \<longrightarrow> Push t k = Inl DCheckFailure"
    by (simp add: Push_def)
  have 3: "\<forall>k u. Push t k = Inr u \<longrightarrow> state t k \<noteq> kOnStack \<and> OnStack_inv u"
    using inv by (auto simp: Push_def dest: OnStack_inv_Push[rotated] split: if_splits)
  have 4: "\<forall>u. Pop t = Inr u \<longrightarrow>
            stack t \<noteq> [] \<and> state u (node (hd (stack t))) = kVisited \<and>
            stack u = tl (stack t) \<and> OnStack_inv u"
    using inv OnStack_inv_Pop[of t] by (auto simp: Pop_def split: list.splits)
  have 5: "\<forall>k. state t k = kOnStack \<or> state t k = kVisited \<longrightarrow> Recurse t k = Inr (False, t)"
    by (auto simp: Recurse_def)
  have 6: "\<forall>k b u. Recurse t k = Inr (b, u) \<longrightarrow> OnStack_inv u"
    using inv OnStack_inv_Recurse by blast
  from 1 2 3 4 5 6 show ?thesis by blast
qed


lemma pushed_engine_step:
  "\<exists>t. ReduceNode_step two_retag eager_flags pushed_engine = Some (Inr (False, t)) \<and>
       stack t = [] \<and> state t 0 = kVisited"
  by (simp add: ReduceNode_step_def ReduceTop_def ReduceTop_reduce_def ReduceTop_changed_def
      pushed_engine_def fresh_engine_def one_node_graph_def IsDead_def InputCount_def Let_def
      node_opcode_def plain_op_def Reduce_def Reduce_calls_def Reduce_loop.simps two_retag_def
      retag_reducer_def set_op_def Reducer_Changed_def Reducer_NoChange_def Changed_def
      max_node_id_def Pop_def update_and_get_revisit_all_nodes_def eager_flags_def
      Revisit_uses_def uses_def use_edges_def edges_from_def)

theorem OnStack_invariant_witness:
  "reducer_keeps_traversal (retag_reducer 0 1) \<and>
   reducer_keeps_traversal (retag_reducer 1 2) \<and>
   OnStack_inv (fresh_engine one_node_graph) \<and>
   Push (fresh_engine one_node_graph) 0 = Inr pushed_engine \<and>
   (\<exists>t. driver_reaches two_retag eager_flags pushed_engine t \<and>
      stack t = [] \<and> state t 0 = kVisited \<and>
      (\<forall>k. frames t k = (if state t k = kOnStack then 1 else 0)) \<and>
      Recurse t 0 = Inr (False, t))"
proof -
  have keep: "\<forall>r\<in>set two_retag. reducer_keeps_traversal r"
    by (simp add: two_retag_def retag_reducer_keeps_traversal)
  have push: "Push (fresh_engine one_node_graph) 0 = Inr pushed_engine"
    by (simp add: Push_def pushed_engine_def fresh_engine_def)
  from pushed_engine_step obtain t where
    t: "ReduceNode_step two_retag eager_flags pushed_engine = Some (Inr (False, t))"
    "stack t = []" "state t 0 = kVisited" by blast
  have run: "driver_reaches two_retag eager_flags pushed_engine t"
    by (rule driver_reaches.step[OF driver_reaches.start t(1)])
  from OnStack_invariant[OF keep fresh_engine_OnStack_inv push run] t(2,3) run push
    fresh_engine_OnStack_inv retag_reducer_keeps_traversal
  show ?thesis by auto
qed

section \<open>The traversal driver: finalizers and the single-node entry point\<close>

lemmas driver_eval =
  ReduceGraph_def ReduceNode_def ReduceNode_loop.simps ReduceNode_step_def ReduceTop_def
  ReduceTop_reduce_def ReduceTop_changed_def Push_def Pop_def Recurse_def Revisit_def
  IsDead_def InputCount_def InputAt_def Let_def node_opcode_def
  Reduce_def Reduce_calls_def Reduce_loop.simps Reducer_Changed_def Reducer_NoChange_def
  Changed_def max_node_id_def update_and_get_revisit_all_nodes_def
  Revisit_uses_def uses_def use_edges_def edges_from_def set_entry_input_index_def

lemma requeue_run:
  "\<exists>s'. ReduceGraph [requeue_reducer] eager_flags counting_engine = Some (Inr s') \<and>
        reducer_data s' = 2"
  by (simp add: driver_eval requeue_reducer_def counting_engine_def one_node_graph_def
      plain_op_def eager_flags_def)


text \<open>
  Claim C3, as stated, fails: with a reducer whose finalizer asks for a revisit the first
  time it runs, \<^verbatim>\<open>ReduceGraph\<close> terminates after calling that finalizer twice.
\<close>

theorem finalize_twice_counterexample:
  "map_option (map_sum id reducer_data)
     (ReduceGraph [requeue_reducer] eager_flags counting_engine) = Some (Inr 2)"
  using requeue_run by auto

lemma driver_reaches_first:
  assumes "ReduceNode_step reducers flags s = Some (Inr (d, s1))" "driver_reaches reducers flags s1 t"
  shows "driver_reaches reducers flags s t"
  using assms(2,1)
proof (induction rule: driver_reaches.induct)
  case start
  from driver_reaches.step[OF driver_reaches.start start] show ?case .
next
  case (step t "done" u)
  from driver_reaches.step[OF step.IH[OF step.prems] step.hyps(2)] show ?case .
qed

lemma RunFinalizers_states:
  "RunFinalizers reducers t = Inr s' \<Longrightarrow>
   \<exists>ss. length ss = length reducers + 1 \<and> hd ss = t \<and> last ss = s' \<and>
        (\<forall>i<length reducers. reducer_Finalize (reducers ! i) (ss ! i) = Inr (ss ! (i + 1)))"
proof (induction reducers arbitrary: t)
  case Nil
  then show ?case by (intro exI[of _ "[t]"]) simp
next
  case (Cons r rs)
  from Cons.prems obtain t1 where f: "reducer_Finalize r t = Inr t1" and rest: "RunFinalizers rs t1 = Inr s'"
    by (auto split: sum.splits)
  from Cons.IH[OF rest] obtain ss where ss: "length ss = length rs + 1" "hd ss = t1" "last ss = s'"
    "\<forall>i<length rs. reducer_Finalize (rs ! i) (ss ! i) = Inr (ss ! (i + 1))" by blast
  from ss(1) have ne: "ss \<noteq> []" by auto
  with ss(2) have h0: "ss ! 0 = t1" by (simp add: hd_conv_nth)
  have "\<forall>i<length (r # rs). reducer_Finalize ((r # rs) ! i) ((t # ss) ! i) = Inr ((t # ss) ! (i + 1))"
  proof (intro allI impI)
    fix i assume i: "i < length (r # rs)"
    show "reducer_Finalize ((r # rs) ! i) ((t # ss) ! i) = Inr ((t # ss) ! (i + 1))"
    proof (cases i)
      case 0
      with f h0 show ?thesis by simp
    next
      case (Suc j)
      with i ss(4) show ?thesis by simp
    qed
  qed
  with ss ne show ?case by (intro exI[of _ "t # ss"]) simp
qed

lemma ReduceNode_step_done:
  assumes "ReduceNode_step reducers flags s = Some (Inr (True, s'))"
  shows "stack s = [] \<and> revisit s = [] \<and>
         (\<exists>t1. update_and_get_revisit_all_nodes flags (nb_visited_nodes s) s = (False, t1) \<and>
               RunFinalizers reducers t1 = Inr s') \<and> revisit s' = []"
proof -
  have st: "stack s = []"
    using assms by (auto simp: ReduceNode_step_def split: if_splits option.splits sum.splits)
  have rv: "revisit s = []"
    using assms st by (auto simp: ReduceNode_step_def Let_def split: if_splits sum.splits)
  obtain b t1 where u: "update_and_get_revisit_all_nodes flags (nb_visited_nodes s) s = (b, t1)"
    by (cases "update_and_get_revisit_all_nodes flags (nb_visited_nodes s) s")
  from assms st rv u have "\<not> b" "RunFinalizers reducers t1 = Inr s'" "revisit s' = []"
    by (auto simp: ReduceNode_step_def Let_def split: if_splits sum.splits)
  with st rv u show ?thesis by simp
qed

lemma ReduceNode_loop_finalizes:
  assumes "ReduceNode_loop reducers flags s = Some y"
  shows "\<forall>s'. y = Inr s' \<longrightarrow>
          (\<exists>t t1. driver_reaches reducers flags s t \<and> stack t = [] \<and> revisit t = [] \<and>
             update_and_get_revisit_all_nodes flags (nb_visited_nodes t) t = (False, t1) \<and>
             RunFinalizers reducers t1 = Inr s' \<and> revisit s' = [] \<and> stack s' = [])"
  using assms
proof (induction reducers flags s y rule: ReduceNode_loop.raw_induct[rotated 1, consumes 1])
  case (1 loop reducers flags s y)
  show ?case
  proof (intro allI impI)
    fix s' assume y: "y = Inr s'"
    from 1(2) y obtain d s1 where st: "ReduceNode_step reducers flags s = Some (Inr (d, s1))"
      and k: "(if d then (if stack s1 \<noteq> [] then Some (Inl DCheckFailure) else Some (Inr s1))
               else loop reducers flags s1) = Some y"
      by (auto split: option.splits sum.splits)
    show "\<exists>t t1. driver_reaches reducers flags s t \<and> stack t = [] \<and> revisit t = [] \<and>
             update_and_get_revisit_all_nodes flags (nb_visited_nodes t) t = (False, t1) \<and>
             RunFinalizers reducers t1 = Inr s' \<and> revisit s' = [] \<and> stack s' = []"
    proof (cases d)
      case True
      with k y have e: "s1 = s'" "stack s' = []" by (auto split: if_splits)
      from st True have "ReduceNode_step reducers flags s = Some (Inr (True, s1))" by simp
      from ReduceNode_step_done[OF this] e driver_reaches.start[of reducers flags s]
      show ?thesis by blast
    next
      case False
      with k have "loop reducers flags s1 = Some y" by simp
      from 1(1)[OF this] y obtain t t1 where t: "driver_reaches reducers flags s1 t" "stack t = []"
        "revisit t = []" "update_and_get_revisit_all_nodes flags (nb_visited_nodes t) t = (False, t1)"
        "RunFinalizers reducers t1 = Inr s'" "revisit s' = []" "stack s' = []" by blast
      from driver_reaches_first[OF st t(1)] t show ?thesis by blast
    qed
  qed
qed


text \<open>
  Claim C3, amended. Every run of \<^verbatim>\<open>ReduceGraph\<close> that terminates normally ends with a
  round of finalizers: the loop has reached a state with empty stack and empty revisit
  queue in which the resweep heuristic does not fire, \<^verbatim>\<open>Finalize\<close> is called on every
  registered reducer once, in registration order, each on the state the previous one
  left, and the round leaves the revisit queue empty. Rounds that leave the queue
  non-empty come before it, so a finalizer runs at least once, not exactly once.
\<close>

theorem ReduceGraph_finalizes:
  assumes "ReduceGraph reducers flags s = Some (Inr s')"
  shows "\<exists>s1 t t1 ss.
           Push (s\<lparr>revisit_all_nodes := False, nb_traversed_uses := 0, nb_visited_nodes := 0\<rparr>)
             (graph_end (graph s)) = Inr s1 \<and>
           driver_reaches reducers flags s1 t \<and> stack t = [] \<and> revisit t = [] \<and>
           update_and_get_revisit_all_nodes flags (nb_visited_nodes t) t = (False, t1) \<and>
           length ss = length reducers + 1 \<and> hd ss = t1 \<and> last ss = s' \<and>
           (\<forall>i<length reducers. reducer_Finalize (reducers ! i) (ss ! i) = Inr (ss ! (i + 1))) \<and>
           revisit s' = [] \<and> stack s' = []"
proof -
  from assms obtain s1 where
    p: "Push (s\<lparr>revisit_all_nodes := False, nb_traversed_uses := 0, nb_visited_nodes := 0\<rparr>)
             (graph_end (graph s)) = Inr s1"
    and l: "ReduceNode_loop reducers flags s1 = Some (Inr s')"
    by (auto simp: ReduceGraph_def ReduceNode_def split: if_splits sum.splits)
  from ReduceNode_loop_finalizes[OF l] obtain t t1 where
    t: "driver_reaches reducers flags s1 t" "stack t = []"
        "revisit t = []" "update_and_get_revisit_all_nodes flags (nb_visited_nodes t) t = (False, t1)"
        "RunFinalizers reducers t1 = Inr s'" "revisit s' = []" "stack s' = []" by blast
  from RunFinalizers_states[OF t(5)] obtain ss where
    "length ss = length reducers + 1" "hd ss = t1" "last ss = s'"
    "\<forall>i<length reducers. reducer_Finalize (reducers ! i) (ss ! i) = Inr (ss ! (i + 1))" by blast
  with p t show ?thesis by blast
qed

theorem ReduceGraph_finalizes_witness:
  "\<exists>s'. ReduceGraph [requeue_reducer] eager_flags counting_engine = Some (Inr s') \<and>
      reducer_data s' = 2 \<and> revisit s' = [] \<and> stack s' = [] \<and>
      (\<exists>t1. reducer_Finalize requeue_reducer t1 = Inr s')"
proof -
  from requeue_run obtain s' where
    r: "ReduceGraph [requeue_reducer] eager_flags counting_engine = Some (Inr s')"
    "reducer_data s' = 2" by blast
  from ReduceGraph_finalizes[OF r(1)] obtain t1 ss where
    ss: "length ss = length [requeue_reducer] + 1" "hd ss = t1" "last ss = s'"
    "\<forall>i<length [requeue_reducer]. reducer_Finalize ([requeue_reducer] ! i) (ss ! i) = Inr (ss ! (i + 1))"
    and e: "revisit s' = []" "stack s' = []"
    by blast
  from ss(1) obtain a b where ab: "ss = [a, b]"
    by (cases ss; cases "tl ss") auto
  with ss(2,3,4) have "reducer_Finalize requeue_reducer t1 = Inr s'" by simp
  with r e show ?thesis by blast
qed





section \<open>Termination of the reduction\<close>


























lemma engine_ok_data [simp]: "engine_ok (s\<lparr>reducer_data := d\<rparr>) = engine_ok s"
  by (simp add: engine_ok_def)















lemma finite_unvisited:
  "finite {k. k < NodeCount (graph s) \<and> State_rank (state s k) \<le> State_rank kRevisit}"
  by simp






















section \<open>The single-node entry point\<close>














lemma last_map_node: "xs \<noteq> [] \<Longrightarrow> node (last xs) = last (map node xs)"
  by (simp add: last_map)


















end
